theory Spec2Isabelle
  imports Main "HOL-Library.Word" "HOL-Library.Signed_Division" "HOL-Library.Multiset"
begin

section \<open>Data model of the urd tracking engine (store.go)\<close>

text \<open>
  An instant (Go \<open>time.Time\<close>) is a count of nanoseconds on one time line; a
  \<open>time.Duration\<close> and the \<open>Seconds\<close> field are Go \<open>int64\<close> values, modelled as
  64-bit words (arithmetic wraps, \<open>sint\<close> reads the signed value). The engine mutates
  the store in place; here every operation takes the store and returns the new one.
  What the environment answers is an argument of the operation: each call of
  \<open>time.Now\<close> or \<open>time.Since\<close> has its own clock reading, \<open>newID()\<close> its drawn id.
\<close>

type_synonym time = int
type_synonym i64 = "64 word"

record Stream =
  ID :: string
  Name :: string
  Seconds :: i64
  Active :: bool
  StartedAt :: "time option"
  CreatedAt :: time

record Session =
  Start :: time
  End :: "time option"

record Store =
  Streams :: "Stream list"
  Sessions :: "Session list"
  LastActive :: "string list"
  FilePath :: string

text \<open>\<open>&Store{FilePath: path}\<close>: every slice is nil.\<close>

definition newStore :: "string \<Rightarrow> Store" where
  "newStore path = \<lparr>Streams = [], Sessions = [], LastActive = [], FilePath = path\<rparr>"

subsection \<open>Durations\<close>

definition minDuration :: int where
  "minDuration = - (2 ^ 63)"

definition maxDuration :: int where
  "maxDuration = 2 ^ 63 - 1"

definition Second :: i64 where
  "Second = 1000000000"

text \<open>\<open>t.Sub(u)\<close>: the difference, saturated at the least and greatest Duration.\<close>

definition Sub :: "time \<Rightarrow> time \<Rightarrow> i64" where
  "Sub t u = word_of_int (max minDuration (min maxDuration (t - u)))"

text \<open>
  \<open>d.Truncate(m)\<close>: \<open>d\<close> itself when \<open>m \<le> 0\<close>, else \<open>d - d % m\<close> with Go's
  remainder (sign of the dividend).
\<close>

definition Truncate :: "i64 \<Rightarrow> i64 \<Rightarrow> i64" where
  "Truncate d m = (if sint m \<le> 0 then d else d - word_of_int (sint d smod sint m))"

text \<open>
  A whole number of seconds of a duration by integer division (towards zero). The source
  computes \<open>int64(d.Seconds())\<close> through \<open>float64\<close>; the operations below therefore take
  that conversion as the parameter \<open>secs\<close>, and \<open>wholeSeconds\<close> is the instance used
  on concrete runs.
\<close>

definition wholeSeconds :: "i64 \<Rightarrow> i64" where
  "wholeSeconds d = word_of_int (sint d sdiv 1000000000)"

subsection \<open>Streams\<close>

text \<open>
  \<open>flushStream\<close>: \<open>now\<close> is the clock reading taken by \<open>time.Since\<close>.
\<close>

definition flushStream :: "(i64 \<Rightarrow> i64) \<Rightarrow> time \<Rightarrow> Stream \<Rightarrow> Stream" where
  "flushStream secs now st =
     (case StartedAt st of
        None \<Rightarrow> st
      | Some t0 \<Rightarrow> st\<lparr>Seconds := Seconds st + secs (Sub now t0)\<rparr>)"

fun anyActive :: "Stream list \<Rightarrow> bool" where
  "anyActive [] = False"
| "anyActive (st # rest) = (if Active st then True else anyActive rest)"

definition HasActive :: "Store \<Rightarrow> bool" where
  "HasActive s = anyActive (Streams s)"

subsection \<open>Sessions\<close>

text \<open>
  \<open>closeCurrentSession\<close> walks the log from its last entry down to the first and stamps
  the first open session it meets; \<open>closeFirstOpen\<close> is that walk on the reversed log.
\<close>

fun closeFirstOpen :: "time \<Rightarrow> Session list \<Rightarrow> Session list" where
  "closeFirstOpen now [] = []"
| "closeFirstOpen now (x # xs) =
     (if End x = None then x\<lparr>End := Some now\<rparr> # xs else x # closeFirstOpen now xs)"

definition closeSessions :: "time \<Rightarrow> Session list \<Rightarrow> Session list" where
  "closeSessions now ss = rev (closeFirstOpen now (rev ss))"

definition closeCurrentSession :: "time \<Rightarrow> Store \<Rightarrow> Store" where
  "closeCurrentSession now s = s\<lparr>Sessions := closeSessions now (Sessions s)\<rparr>"

subsection \<open>Store operations\<close>

text \<open>
  \<open>AddStream\<close>: \<open>nid\<close> is the value returned by \<open>newID()\<close> (three random bytes in
  hexadecimal), \<open>now\<close> the clock reading. The insertion is written as the source
  writes it: the slice is opened at \<open>at\<close> by appending its tail to its first
  \<open>at + 1\<close> elements, then index \<open>at\<close> is overwritten.
\<close>

definition AddStream :: "string \<Rightarrow> time \<Rightarrow> string \<Rightarrow> int \<Rightarrow> Store \<Rightarrow> Store" where
  "AddStream nid now name at0 s =
     (let st = \<lparr>ID = nid, Name = name, Seconds = 0, Active = False,
                StartedAt = None, CreatedAt = now\<rparr>;
          at = (if at0 < 0 then 0 else at0)
      in if at \<ge> int (length (Streams s)) then s\<lparr>Streams := Streams s @ [st]\<rparr>
         else s\<lparr>Streams :=
                (take (nat at + 1) (Streams s) @ drop (nat at) (Streams s))[nat at := st]\<rparr>)"

fun deleteFirst :: "string \<Rightarrow> Stream list \<Rightarrow> Stream list" where
  "deleteFirst id0 [] = []"
| "deleteFirst id0 (st # rest) = (if ID st = id0 then rest else st # deleteFirst id0 rest)"

definition DeleteStream :: "string \<Rightarrow> Store \<Rightarrow> Store" where
  "DeleteStream id0 s = s\<lparr>Streams := deleteFirst id0 (Streams s)\<rparr>"

text \<open>
  \<open>ToggleStream\<close>: \<open>tStream\<close> is the clock reading of the stream transition (inside
  \<open>flushStream\<close>, or the \<open>now\<close> of the activation), \<open>tSession\<close> the reading taken
  for the session boundary.
\<close>

fun toggleFirst :: "(i64 \<Rightarrow> i64) \<Rightarrow> time \<Rightarrow> string \<Rightarrow> Stream list \<Rightarrow> Stream list" where
  "toggleFirst secs t id0 [] = []"
| "toggleFirst secs t id0 (st # rest) =
     (if ID st = id0 then
        (if Active st then (flushStream secs t st)\<lparr>Active := False, StartedAt := None\<rparr>
         else st\<lparr>Active := True, StartedAt := Some t\<rparr>) # rest
      else st # toggleFirst secs t id0 rest)"

definition ToggleStream :: "(i64 \<Rightarrow> i64) \<Rightarrow> time \<Rightarrow> time \<Rightarrow> string \<Rightarrow> Store \<Rightarrow> Store" where
  "ToggleStream secs tStream tSession id0 s =
     (let hadActive = HasActive s;
          s1 = s\<lparr>Streams := toggleFirst secs tStream id0 (Streams s)\<rparr>;
          hasActive = HasActive s1
      in if \<not> hadActive \<and> hasActive then
           s1\<lparr>Sessions := Sessions s1 @ [\<lparr>Start = tSession, End = None\<rparr>]\<rparr>
         else if hadActive \<and> \<not> hasActive then closeCurrentSession tSession s1
         else s1)"

text \<open>
  \<open>StopAll\<close>: \<open>tf i\<close> is the clock reading of the flush of the stream at index \<open>i\<close>,
  \<open>tClose\<close> the reading of \<open>closeCurrentSession\<close>. The loop carries the index and the
  \<open>LastActive\<close> slice built so far.
\<close>

fun stopLoop ::
  "(i64 \<Rightarrow> i64) \<Rightarrow> (nat \<Rightarrow> time) \<Rightarrow> nat \<Rightarrow> Stream list \<Rightarrow> string list
     \<Rightarrow> Stream list \<times> string list" where
  "stopLoop secs tf i [] la = ([], la)"
| "stopLoop secs tf i (st # rest) la =
     (if Active st then
        (let (rest', la') = stopLoop secs tf (Suc i) rest (la @ [ID st])
         in ((flushStream secs (tf i) st)\<lparr>Active := False, StartedAt := None\<rparr> # rest', la'))
      else
        (let (rest', la') = stopLoop secs tf (Suc i) rest la in (st # rest', la')))"

definition StopAll :: "(i64 \<Rightarrow> i64) \<Rightarrow> (nat \<Rightarrow> time) \<Rightarrow> time \<Rightarrow> Store \<Rightarrow> Store" where
  "StopAll secs tf tClose s =
     (let hadActive = HasActive s;
          (sts, la) = stopLoop secs tf 0 (Streams s) [];
          s1 = s\<lparr>Streams := sts, LastActive := la\<rparr>
      in if hadActive then closeCurrentSession tClose s1 else s1)"

text \<open>
  \<open>ContinueAll\<close>: one clock reading \<open>now\<close>; \<open>ids\<close> is the lookup table built from
  \<open>LastActive\<close>.
\<close>

fun continueLoop :: "(string \<Rightarrow> bool) \<Rightarrow> time \<Rightarrow> Stream list \<Rightarrow> Stream list" where
  "continueLoop ids now [] = []"
| "continueLoop ids now (st # rest) =
     (if ids (ID st) \<and> \<not> Active st then st\<lparr>Active := True, StartedAt := Some now\<rparr>
      else st) # continueLoop ids now rest"

fun idTable :: "string list \<Rightarrow> (string \<Rightarrow> bool) \<Rightarrow> (string \<Rightarrow> bool)" where
  "idTable [] ids = ids"
| "idTable (i # rest) ids = idTable rest (ids(i := True))"

definition ContinueAll :: "time \<Rightarrow> Store \<Rightarrow> Store" where
  "ContinueAll now s =
     (if length (LastActive s) = 0 then s
      else
        (let ids = idTable (LastActive s) (\<lambda>_. False);
             hadActive = HasActive s;
             s1 = s\<lparr>Streams := continueLoop ids now (Streams s)\<rparr>;
             s2 = (if \<not> hadActive \<and> HasActive s1
                   then s1\<lparr>Sessions := Sessions s1 @ [\<lparr>Start = now, End = None\<rparr>]\<rparr>
                   else s1)
         in s2\<lparr>LastActive := []\<rparr>))"

subsection \<open>Wall clock and load-time validation\<close>

text \<open>
  \<open>TotalWallClock\<close>: \<open>tn i\<close> is the clock reading taken in the iteration for the
  session at index \<open>i\<close> (the source reads the clock in every iteration and keeps the
  reading only for an open session). The total is a Duration: the sum wraps.
\<close>

fun wallLoop :: "(nat \<Rightarrow> time) \<Rightarrow> nat \<Rightarrow> Session list \<Rightarrow> i64 \<Rightarrow> i64" where
  "wallLoop tn i [] tot = tot"
| "wallLoop tn i (sess # rest) tot =
     (let end_t = (case End sess of None \<Rightarrow> tn i | Some e \<Rightarrow> e)
      in wallLoop tn (Suc i) rest (tot + Sub end_t (Start sess)))"

definition TotalWallClock :: "(nat \<Rightarrow> time) \<Rightarrow> Store \<Rightarrow> i64" where
  "TotalWallClock tn s = Truncate (wallLoop tn 0 (Sessions s) 0) Second"

datatype error =
    NotExist
  | IOFailure
  | MalformedData
  | MarshalFailure
  | InconsistentData i64 i64
  | IndexOutOfRange

fun streamTotalLoop :: "Stream list \<Rightarrow> i64 \<Rightarrow> i64" where
  "streamTotalLoop [] tot = tot"
| "streamTotalLoop (st # rest) tot = streamTotalLoop rest (tot + Seconds st * Second)"

definition validate :: "(nat \<Rightarrow> time) \<Rightarrow> Store \<Rightarrow> error option" where
  "validate tn s =
     (let streamTotal = streamTotalLoop (Streams s) 0;
          wallClock = TotalWallClock tn s
      in if 0 < sint wallClock \<and> sint streamTotal < sint wallClock
         then Some (InconsistentData streamTotal wallClock) else None)"

subsection \<open>Files\<close>

text \<open>
  The file system holds contents of type \<open>'b\<close> under paths; \<open>readFails\<close> and
  \<open>writeFails\<close> say at which paths the operating system refuses the access. The JSON
  codec of the Go library is not part of the repository: \<open>Save\<close> and \<open>LoadStore\<close>
  take \<open>marshal\<close> (\<open>json.MarshalIndent\<close>) and \<open>unmarshal\<close> (\<open>json.Unmarshal\<close> into
  the given store) as parameters, \<open>None\<close> being their error.
\<close>

record 'b FileSys =
  files :: "string \<Rightarrow> 'b option"
  readFails :: "string \<Rightarrow> bool"
  writeFails :: "string \<Rightarrow> bool"

definition osReadFile :: "string \<Rightarrow> 'b FileSys \<Rightarrow> error + 'b" where
  "osReadFile path fs =
     (case files fs path of
        None \<Rightarrow> Inl NotExist
      | Some data \<Rightarrow> if readFails fs path then Inl IOFailure else Inr data)"

definition osWriteFile :: "string \<Rightarrow> 'b \<Rightarrow> 'b FileSys \<Rightarrow> error option \<times> 'b FileSys" where
  "osWriteFile path data fs =
     (if writeFails fs path then (Some IOFailure, fs)
      else (None, fs\<lparr>files := (files fs)(path := Some data)\<rparr>))"

definition osRename :: "string \<Rightarrow> string \<Rightarrow> 'b FileSys \<Rightarrow> error option \<times> 'b FileSys" where
  "osRename old new fs =
     (case files fs old of
        None \<Rightarrow> (Some NotExist, fs)
      | Some data \<Rightarrow>
          if writeFails fs new then (Some IOFailure, fs)
          else (None, fs\<lparr>files := (files fs)(old := None, new := Some data)\<rparr>))"

definition Save :: "(Store \<Rightarrow> 'b option) \<Rightarrow> Store \<Rightarrow> 'b FileSys \<Rightarrow> error option \<times> 'b FileSys" where
  "Save marshal s fs =
     (case marshal s of
        None \<Rightarrow> (Some MarshalFailure, fs)
      | Some data \<Rightarrow>
          (let tmp = FilePath s @ ''.tmp'' in
           case osWriteFile tmp data fs of
             (Some e, fs1) \<Rightarrow> (Some e, fs1)
           | (None, fs1) \<Rightarrow> osRename tmp (FilePath s) fs1))"

text \<open>
  \<open>LoadStore\<close>: \<open>tn\<close> are the clock readings of \<open>TotalWallClock\<close> inside
  \<open>validate\<close>, \<open>now\<close> the reading of the repair pass.
\<close>

definition repairStream :: "time \<Rightarrow> Stream \<Rightarrow> Stream" where
  "repairStream now st =
     (if Active st \<and> StartedAt st = None then st\<lparr>StartedAt := Some now\<rparr> else st)"

definition LoadStore ::
  "('b \<Rightarrow> Store \<Rightarrow> Store option) \<Rightarrow> (nat \<Rightarrow> time) \<Rightarrow> time \<Rightarrow> string \<Rightarrow> 'b FileSys
     \<Rightarrow> error + Store" where
  "LoadStore unmarshal tn now path fs =
     (case osReadFile path fs of
        Inl e \<Rightarrow> if e = NotExist then Inr (newStore path) else Inl e
      | Inr data \<Rightarrow>
          (case unmarshal data (newStore path) of
             None \<Rightarrow> Inl MalformedData
           | Some s \<Rightarrow>
               (case validate tn s of
                  Some e \<Rightarrow> Inl e
                | None \<Rightarrow> Inr (s\<lparr>Streams := map (repairStream now) (Streams s)\<rparr>))))"

text \<open>
  \<open>SaveForBackground\<close>: \<open>now\<close> is the reading taken before the loop, \<open>tf i\<close> the
  reading of the flush of the stream at index \<open>i\<close>. The store is changed in place
  whatever \<open>Save\<close> returns, so the result carries the store, the error and the files.
\<close>

fun backgroundLoop ::
  "(i64 \<Rightarrow> i64) \<Rightarrow> (nat \<Rightarrow> time) \<Rightarrow> time \<Rightarrow> nat \<Rightarrow> Stream list \<Rightarrow> Stream list" where
  "backgroundLoop secs tf now i [] = []"
| "backgroundLoop secs tf now i (st # rest) =
     (if Active st then (flushStream secs (tf i) st)\<lparr>StartedAt := Some now\<rparr> else st)
       # backgroundLoop secs tf now (Suc i) rest"

definition SaveForBackground ::
  "(Store \<Rightarrow> 'b option) \<Rightarrow> (i64 \<Rightarrow> i64) \<Rightarrow> (nat \<Rightarrow> time) \<Rightarrow> time \<Rightarrow> Store \<Rightarrow> 'b FileSys
     \<Rightarrow> Store \<times> error option \<times> 'b FileSys" where
  "SaveForBackground marshal secs tf now s fs =
     (let s1 = s\<lparr>Streams := backgroundLoop secs tf now 0 (Streams s)\<rparr>
      in (s1, Save marshal s1 fs))"

subsection \<open>Deletion in the presentation layer (main.go)\<close>

text \<open>
  \<open>SortStreams\<close> hands \<open>s.Streams\<close> to \<open>sort.SliceStable\<close>. The library sort
  reaches the slice in two ways only: it asks the comparison about two indices and it
  exchanges the elements at two indices (the swapper of the slice). The comparison calls
  \<open>Elapsed\<close>, which reads the clock at every call, so which exchanges are made is an
  answer of the environment: \<open>swaps\<close> is the sequence of exchanges of the call, in
  order. The sort exchanges indices inside the slice only; an exchange outside it is left
  out.
\<close>

definition swapAt :: "nat \<times> nat \<Rightarrow> 'a list \<Rightarrow> 'a list" where
  "swapAt p xs =
     (if fst p < length xs \<and> snd p < length xs
      then xs[fst p := xs ! snd p, snd p := xs ! fst p] else xs)"

fun applySwaps :: "(nat \<times> nat) list \<Rightarrow> 'a list \<Rightarrow> 'a list" where
  "applySwaps [] xs = xs"
| "applySwaps (p # ps) xs = applySwaps ps (swapAt p xs)"

definition SortStreams :: "(nat \<times> nat) list \<Rightarrow> Store \<Rightarrow> Store" where
  "SortStreams swaps s = s\<lparr>Streams := applySwaps swaps (Streams s)\<rparr>"

text \<open>
  Of the \<open>model\<close> only the fields that \<open>performDelete\<close> reads or writes are kept,
  and the file system that \<open>Save\<close> writes to is carried along in the field \<open>disk\<close>.
  Indexing \<open>Streams[m.cursor]\<close> outside the slice panics: \<open>IndexOutOfRange\<close>. The
  error of \<open>Save\<close> is dropped, as in the source.
\<close>

record 'b model =
  store :: Store
  cursor :: int
  ticking :: bool
  disk :: "'b FileSys"

definition performDelete ::
  "(nat \<times> nat) list \<Rightarrow> (Store \<Rightarrow> 'b option) \<Rightarrow> time \<Rightarrow> 'b model
     \<Rightarrow> error + 'b model" where
  "performDelete swaps marshal tClose m =
     (if length (Streams (store m)) = 0 then Inr m
      else if cursor m < 0 \<or> int (length (Streams (store m))) \<le> cursor m
      then Inl IndexOutOfRange
      else
        (let i = nat (cursor m);
             stream = Streams (store m) ! i;
             wasActive = Active stream;
             s1 = (if wasActive
                   then (store m)\<lparr>Streams :=
                          (Streams (store m))[i := stream\<lparr>Active := False, StartedAt := None\<rparr>]\<rparr>
                   else store m);
             s2 = DeleteStream (ID stream) s1;
             s3 = (if wasActive \<and> \<not> HasActive s2 then closeCurrentSession tClose s2 else s2);
             s4 = SortStreams swaps s3;
             (err, fs') = Save marshal s4 (disk m);
             c = (if int (length (Streams s4)) \<le> cursor m \<and> 0 < cursor m
                  then cursor m - 1 else cursor m);
             tk = (if \<not> HasActive s4 then False else ticking m)
         in Inr (m\<lparr>store := s4, cursor := c, ticking := tk, disk := fs'\<rparr>)))"

section \<open>Specification predicates and sample stores\<close>

text \<open>
  \<open>closesMostRecent now old new\<close>: \<open>new\<close> is \<open>old\<close> with the end of its most recent
  open session set to \<open>now\<close>; a log without an open session is left as it is.
\<close>

definition closesMostRecent :: "time \<Rightarrow> Session list \<Rightarrow> Session list \<Rightarrow> bool" where
  "closesMostRecent now old new \<longleftrightarrow>
     (if \<forall>x \<in> set old. End x \<noteq> None then new = old
      else \<exists>i < length old. End (old ! i) = None
             \<and> (\<forall>j. i < j \<and> j < length old \<longrightarrow> End (old ! j) \<noteq> None)
             \<and> new = old[i := (old ! i)\<lparr>End := Some now\<rparr>])"

definition mkStream :: "string \<Rightarrow> i64 \<Rightarrow> time option \<Rightarrow> Stream" where
  "mkStream i n started =
     \<lparr>ID = i, Name = i, Seconds = n, Active = (started \<noteq> None), StartedAt = started,
      CreatedAt = 0\<rparr>"

definition mkStore :: "Stream list \<Rightarrow> Session list \<Rightarrow> string list \<Rightarrow> Store" where
  "mkStore sts ss la = \<lparr>Streams = sts, Sessions = ss, LastActive = la, FilePath = ''urd.json''\<rparr>"

text \<open>
  Samples for concrete runs: a clock that answers every reading with the same instant,
  a file system without files on which every access is allowed, and a codec that stores
  the persisted fields as they are (\<open>FilePath\<close> is not encoded: the decoder keeps the
  path of the store it fills).
\<close>

definition constClock :: "time \<Rightarrow> nat \<Rightarrow> time" where
  "constClock t i = t"

definition emptyDisk :: "'b FileSys" where
  "emptyDisk = \<lparr>files = (\<lambda>p. None), readFails = (\<lambda>p. False), writeFails = (\<lambda>p. False)\<rparr>"

definition plainMarshal :: "Store \<Rightarrow> Store option" where
  "plainMarshal s = Some s"

definition plainUnmarshal :: "Store \<Rightarrow> Store \<Rightarrow> Store option" where
  "plainUnmarshal data s0 = Some (data\<lparr>FilePath := FilePath s0\<rparr>)"

definition deleteModel :: "Store model" where
  "deleteModel =
     \<lparr>store = mkStore [mkStream ''0a0a0a'' 0 (Some 3)] [\<lparr>Start = 3, End = None\<rparr>] [],
      cursor = 0, ticking = True, disk = emptyDisk\<rparr>"

text \<open>The sum of the streams' \<open>Seconds\<close> as an integer, free of wrap-around.\<close>

definition sumSeconds :: "Stream list \<Rightarrow> int" where
  "sumSeconds xs = sum_list (map (\<lambda>st. sint (Seconds st)) xs)"

text \<open>
  The wall-clock total as a number, free of saturation and wrap-around: the spans
  \<open>(end or now) - start\<close> of the sessions in nanoseconds (\<open>tn i\<close> is the reading for
  the session at index \<open>i\<close>), their sum, and the sum cut to whole seconds towards zero.
  \<open>fitsDuration\<close> says that a number of nanoseconds is a value of \<open>time.Duration\<close>.
\<close>

fun sessionSpans :: "(nat \<Rightarrow> time) \<Rightarrow> nat \<Rightarrow> Session list \<Rightarrow> int list" where
  "sessionSpans tn i [] = []"
| "sessionSpans tn i (x # xs) =
     ((case End x of None \<Rightarrow> tn i | Some e \<Rightarrow> e) - Start x) # sessionSpans tn (Suc i) xs"

definition wallClockNanos :: "(nat \<Rightarrow> time) \<Rightarrow> Store \<Rightarrow> int" where
  "wallClockNanos tn s = sum_list (sessionSpans tn 0 (Sessions s))"

definition wallClockSeconds :: "(nat \<Rightarrow> time) \<Rightarrow> Store \<Rightarrow> int" where
  "wallClockSeconds tn s = wallClockNanos tn s sdiv 1000000000"

definition fitsDuration :: "int \<Rightarrow> bool" where
  "fitsDuration d \<longleftrightarrow> minDuration \<le> d \<and> d \<le> maxDuration"

text \<open>
  A store of one stream with \<open>Seconds = 9223372037\<close> and one closed session of one
  second; a store of one stream of five seconds and two closed sessions of
  \<open>6000000000\<close> seconds each; the store of the repository's test of inconsistent data
  (a session of two hours, one stream of sixty seconds); a consistent store.
\<close>

definition longStore :: Store where
  "longStore = mkStore [mkStream ''0a0a0a'' 9223372037 None]
                 [\<lparr>Start = 0, End = Some 1000000000\<rparr>] []"

definition twoSpanStore :: Store where
  "twoSpanStore = mkStore [mkStream ''0a0a0a'' 5 None]
                    [\<lparr>Start = 0, End = Some 6000000000000000000\<rparr>,
                     \<lparr>Start = 6000000000000000000, End = Some 12000000000000000000\<rparr>] []"

definition shortStore :: Store where
  "shortStore = mkStore [mkStream ''0a0a0a'' 60 None]
                  [\<lparr>Start = 0, End = Some 7200000000000\<rparr>] []"

definition hourStore :: Store where
  "hourStore = mkStore [mkStream ''0a0a0a'' 7200 None]
                 [\<lparr>Start = 0, End = Some 3600000000000\<rparr>] [''0a0a0a'']"

definition diskWith :: "string \<Rightarrow> 'b \<Rightarrow> 'b FileSys" where
  "diskWith path data = emptyDisk\<lparr>files := (\<lambda>p. if p = path then Some data else None)\<rparr>"

subsection \<open>Session invariants and reachable stores\<close>

text \<open>
  A session covers \<open>[Start, End)\<close>, without upper bound while it is open.
  \<open>intersects a b\<close> says that the two intervals share an instant.
\<close>

fun before :: "time \<Rightarrow> time option \<Rightarrow> bool" where
  "before t None = True"
| "before t (Some e) = (t < e)"

definition inSession :: "time \<Rightarrow> Session \<Rightarrow> bool" where
  "inSession t x \<longleftrightarrow> Start x \<le> t \<and> before t (End x)"

definition intersects :: "Session \<Rightarrow> Session \<Rightarrow> bool" where
  "intersects a b \<longleftrightarrow>
     before (Start a) (End a) \<and> before (Start b) (End b)
     \<and> before (Start a) (End b) \<and> before (Start b) (End a)"

definition nonOverlapping :: "Session list \<Rightarrow> bool" where
  "nonOverlapping ss \<longleftrightarrow>
     (\<forall>i < length ss. \<forall>j < length ss. i \<noteq> j \<longrightarrow> \<not> intersects (ss ! i) (ss ! j))"

definition atMostOneOpen :: "Session list \<Rightarrow> bool" where
  "atMostOneOpen ss \<longleftrightarrow> length (filter (\<lambda>x. End x = None) ss) \<le> 1"

text \<open>
  \<open>logGrows old new\<close>: every session of \<open>old\<close> is still at its index in \<open>new\<close> with
  the same start, and with the same end once it had one; \<open>new\<close> may be longer.
\<close>

definition logGrows :: "Session list \<Rightarrow> Session list \<Rightarrow> bool" where
  "logGrows old new \<longleftrightarrow>
     length old \<le> length new
     \<and> (\<forall>i < length old. Start (new ! i) = Start (old ! i)
            \<and> (End (old ! i) \<noteq> None \<longrightarrow> End (new ! i) = End (old ! i)))"

text \<open>
  One engine operation. \<open>step secs T s T' s'\<close>: from store \<open>s\<close>, all of whose clock
  readings were at most \<open>T\<close>, one operation whose readings are at least \<open>T\<close> and in
  the order of the calls gives \<open>s'\<close>, and \<open>T'\<close> is its last reading. \<open>DeleteStream\<close>
  is a step only when it does not remove the last active stream.
\<close>

inductive step :: "(i64 \<Rightarrow> i64) \<Rightarrow> time \<Rightarrow> Store \<Rightarrow> time \<Rightarrow> Store \<Rightarrow> bool"
  for secs :: "i64 \<Rightarrow> i64" where
  add: "T \<le> now \<Longrightarrow> step secs T s now (AddStream nid now name at0 s)"
| delete: "HasActive (DeleteStream id0 s) \<or> \<not> HasActive s \<Longrightarrow>
     step secs T s T (DeleteStream id0 s)"
| toggle: "T \<le> tStream \<Longrightarrow> tStream \<le> tSession \<Longrightarrow>
     step secs T s tSession (ToggleStream secs tStream tSession id0 s)"
| stop: "\<forall>i < length (Streams s). T \<le> tf i \<and> tf i \<le> tClose \<Longrightarrow> T \<le> tClose \<Longrightarrow>
     step secs T s tClose (StopAll secs tf tClose s)"
| continue: "T \<le> now \<Longrightarrow> step secs T s now (ContinueAll now s)"

inductive reach :: "(i64 \<Rightarrow> i64) \<Rightarrow> time \<Rightarrow> Store \<Rightarrow> bool"
  for secs :: "i64 \<Rightarrow> i64" where
  init: "reach secs T (newStore path)"
| next_op: "reach secs T s \<Longrightarrow> step secs T s T' s' \<Longrightarrow> reach secs T' s'"

text \<open>
  The clock readings of a log in the order in which they were taken, and the invariant
  of reachable stores: the readings are sorted and at most \<open>T\<close>, only the last session
  can be open, and it is open exactly when some stream is active.
\<close>

fun bounds :: "Session list \<Rightarrow> time list" where
  "bounds [] = []"
| "bounds (x # xs) = Start x # (case End x of None \<Rightarrow> [] | Some e \<Rightarrow> [e]) @ bounds xs"

definition sessionInv :: "time \<Rightarrow> Store \<Rightarrow> bool" where
  "sessionInv T s \<longleftrightarrow>
     sorted (bounds (Sessions s))
     \<and> (\<forall>b \<in> set (bounds (Sessions s)). b \<le> T)
     \<and> (\<forall>x \<in> set (butlast (Sessions s)). End x \<noteq> None)
     \<and> (HasActive s \<longleftrightarrow> Sessions s \<noteq> [] \<and> End (last (Sessions s)) = None)"

text \<open>The run that deletes the only active stream and then starts another one.\<close>

definition deleteRun :: Store where
  "deleteRun =
     ToggleStream wholeSeconds 5 6 ''0b0b0b''
       (AddStream ''0b0b0b'' 4 ''B'' 0
         (DeleteStream ''0a0a0a''
           (ToggleStream wholeSeconds 2 3 ''0a0a0a''
             (AddStream ''0a0a0a'' 1 ''A'' 0 (newStore ''urd.json'')))))"

text \<open>A run that toggles one stream on, off and on again.\<close>

definition toggleRun :: Store where
  "toggleRun =
     ToggleStream wholeSeconds 6 7 ''0a0a0a''
       (ToggleStream wholeSeconds 4 5 ''0a0a0a''
         (ToggleStream wholeSeconds 2 3 ''0a0a0a''
           (AddStream ''0a0a0a'' 1 ''A'' 0 (newStore ''urd.json''))))"

section \<open>Properties\<close>

subsection \<open>Activity and the session log\<close>

lemma anyActive_iff: "anyActive xs \<longleftrightarrow> (\<exists>st \<in> set xs. Active st)"
  by (induction xs) auto

lemma HasActive_iff: "HasActive s \<longleftrightarrow> (\<exists>st \<in> set (Streams s). Active st)"
  by (simp add: HasActive_def anyActive_iff)

lemma HasActive_Sessions_upd [simp]: "HasActive (s\<lparr>Sessions := ss\<rparr>) = HasActive s"
  by (simp add: HasActive_def)

lemma HasActive_LastActive_upd [simp]: "HasActive (s\<lparr>LastActive := la\<rparr>) = HasActive s"
  by (simp add: HasActive_def)

lemma HasActive_closeCurrentSession [simp]:
  "HasActive (closeCurrentSession now s) = HasActive s"
  by (simp add: closeCurrentSession_def)

lemma closeFirstOpen_closed:
  "\<forall>x \<in> set xs. End x \<noteq> None \<Longrightarrow> closeFirstOpen now xs = xs"
  by (induction xs) auto

lemma closeFirstOpen_open:
  "\<exists>x \<in> set xs. End x = None \<Longrightarrow>
   \<exists>i < length xs. End (xs ! i) = None \<and> (\<forall>j < i. End (xs ! j) \<noteq> None)
      \<and> closeFirstOpen now xs = xs[i := (xs ! i)\<lparr>End := Some now\<rparr>]"
proof (induction xs)
  case Nil
  then show ?case by simp
next
  case (Cons x xs)
  show ?case
  proof (cases "End x = None")
    case True
    then have "0 < length (x # xs) \<and> End ((x # xs) ! 0) = None
      \<and> (\<forall>j < 0. End ((x # xs) ! j) \<noteq> None)
      \<and> closeFirstOpen now (x # xs) = (x # xs)[0 := ((x # xs) ! 0)\<lparr>End := Some now\<rparr>]"
      by simp
    then show ?thesis by blast
  next
    case False
    with Cons.prems have "\<exists>y \<in> set xs. End y = None" by auto
    from Cons.IH [OF this] obtain i where i: "i < length xs" "End (xs ! i) = None"
      "\<forall>j < i. End (xs ! j) \<noteq> None"
      "closeFirstOpen now xs = xs[i := (xs ! i)\<lparr>End := Some now\<rparr>]" by blast
    have "\<forall>j < Suc i. End ((x # xs) ! j) \<noteq> None"
      using False i(3) by (auto simp: nth_Cons split: nat.splits)
    with i False have "Suc i < length (x # xs) \<and> End ((x # xs) ! Suc i) = None
      \<and> (\<forall>j < Suc i. End ((x # xs) ! j) \<noteq> None)
      \<and> closeFirstOpen now (x # xs)
          = (x # xs)[Suc i := ((x # xs) ! Suc i)\<lparr>End := Some now\<rparr>]"
      by auto
    then show ?thesis by blast
  qed
qed

lemma closeSessions_spec: "closesMostRecent now ss (closeSessions now ss)"
proof (cases "\<forall>x \<in> set ss. End x \<noteq> None")
  case True
  then have "closeFirstOpen now (rev ss) = rev ss"
    by (intro closeFirstOpen_closed) simp
  with True show ?thesis by (simp add: closesMostRecent_def closeSessions_def)
next
  case False
  then have "\<exists>x \<in> set (rev ss). End x = None" by simp
  from closeFirstOpen_open [OF this, of now] obtain i where i: "i < length ss"
    "End (rev ss ! i) = None" "\<forall>j < i. End (rev ss ! j) \<noteq> None"
    "closeFirstOpen now (rev ss) = (rev ss)[i := (rev ss ! i)\<lparr>End := Some now\<rparr>]" by auto
  let ?k = "length ss - Suc i"
  have k: "?k < length ss" using i(1) by simp
  have nk: "rev ss ! i = ss ! ?k" using i(1) by (simp add: rev_nth)
  have after: "\<forall>j. ?k < j \<and> j < length ss \<longrightarrow> End (ss ! j) \<noteq> None"
  proof (intro allI impI)
    fix j assume j: "?k < j \<and> j < length ss"
    then have "length ss - Suc j < i" using i(1) by arith
    with i(3) have "End (rev ss ! (length ss - Suc j)) \<noteq> None" by blast
    moreover have "length ss - Suc j < length ss" "length ss - Suc (length ss - Suc j) = j"
      using j by arith+
    then have "rev ss ! (length ss - Suc j) = ss ! j"
      by (simp add: rev_nth)
    ultimately show "End (ss ! j) \<noteq> None" by simp
  qed
  have "closeSessions now ss = ss[?k := (ss ! ?k)\<lparr>End := Some now\<rparr>]"
    using i(1) i(4) nk by (simp add: closeSessions_def rev_update)
  with k i(2) nk after False show ?thesis
    unfolding closesMostRecent_def by auto
qed

subsection \<open>ToggleStream\<close>

text \<open>
  C1. \<open>ToggleStream\<close> changes the session log exactly at transitions of global activity:
  from no active stream to some active stream it appends an open session starting at the
  clock reading taken for the boundary; from some active stream to none it sets the end
  of the most recent open session to that reading; when activity is the same before and
  after (in particular when streams are active both before and after) the log is
  unchanged.
\<close>

theorem ToggleStream_session_boundary:
  "(let s' = ToggleStream secs tStream tSession id0 s;
        had = (\<exists>st \<in> set (Streams s). Active st);
        has = (\<exists>st \<in> set (Streams s'). Active st)
    in (\<not> had \<and> has \<longrightarrow> Sessions s' = Sessions s @ [\<lparr>Start = tSession, End = None\<rparr>])
     \<and> (had \<and> \<not> has \<longrightarrow> closesMostRecent tSession (Sessions s) (Sessions s'))
     \<and> (had = has \<longrightarrow> Sessions s' = Sessions s))"
proof -
  let ?s1 = "s\<lparr>Streams := toggleFirst secs tStream id0 (Streams s)\<rparr>"
  have streams: "Streams (ToggleStream secs tStream tSession id0 s) = Streams ?s1"
    by (simp add: ToggleStream_def Let_def closeCurrentSession_def)
  have had: "HasActive s \<longleftrightarrow> (\<exists>st \<in> set (Streams s). Active st)"
    by (rule HasActive_iff)
  have has: "HasActive ?s1
      \<longleftrightarrow> (\<exists>st \<in> set (Streams (ToggleStream secs tStream tSession id0 s)). Active st)"
    by (simp only: streams HasActive_iff)
  show ?thesis
    unfolding Let_def had [symmetric] has [symmetric]
    using closeSessions_spec [of tSession "Sessions s"]
    by (auto simp: ToggleStream_def Let_def closeCurrentSession_def)
qed

theorem ToggleStream_session_boundary_witness:
  "Sessions (ToggleStream wholeSeconds 5 6 ''0a0a0a'' (mkStore [mkStream ''0a0a0a'' 0 None] [] []))
     = [\<lparr>Start = 6, End = None\<rparr>]
   \<and> Sessions (ToggleStream wholeSeconds 5 6 ''0b0b0b''
        (mkStore [mkStream ''0a0a0a'' 0 (Some 1), mkStream ''0b0b0b'' 0 None] [\<lparr>Start = 1, End = None\<rparr>] []))
     = [\<lparr>Start = 1, End = None\<rparr>]
   \<and> closesMostRecent 6 [\<lparr>Start = 1, End = None\<rparr>]
        (Sessions (ToggleStream wholeSeconds 5 6 ''0a0a0a''
           (mkStore [mkStream ''0a0a0a'' 0 (Some 1)] [\<lparr>Start = 1, End = None\<rparr>] [])))"
  using ToggleStream_session_boundary
          [of wholeSeconds 5 6 "''0a0a0a''" "mkStore [mkStream ''0a0a0a'' 0 None] [] []"]
        ToggleStream_session_boundary
          [of wholeSeconds 5 6 "''0b0b0b''"
              "mkStore [mkStream ''0a0a0a'' 0 (Some 1), mkStream ''0b0b0b'' 0 None]
                 [\<lparr>Start = 1, End = None\<rparr>] []"]
        ToggleStream_session_boundary
          [of wholeSeconds 5 6 "''0a0a0a''"
              "mkStore [mkStream ''0a0a0a'' 0 (Some 1)] [\<lparr>Start = 1, End = None\<rparr>] []"]
  by (simp add: Let_def mkStore_def mkStream_def ToggleStream_def HasActive_def
        flushStream_def closeCurrentSession_def closeSessions_def)

subsection \<open>ContinueAll\<close>

lemma idTable_iff: "idTable la ids x \<longleftrightarrow> ids x \<or> x \<in> set la"
  by (induction la arbitrary: ids) auto

lemma continueLoop_map:
  "continueLoop ids now xs =
     map (\<lambda>st. if ids (ID st) \<and> \<not> Active st then st\<lparr>Active := True, StartedAt := Some now\<rparr> else st) xs"
  by (induction xs) auto

text \<open>
  C7. \<open>ContinueAll\<close> returns the store as it is when \<open>LastActive\<close> is empty.
  Otherwise every stream whose id is in \<open>LastActive\<close> and that is not active becomes
  active with \<open>StartedAt = now\<close> and every other stream is left alone; an open session
  starting at \<open>now\<close> is appended exactly when no stream was active before and some
  stream is active after; \<open>LastActive\<close> is cleared.
\<close>

theorem ContinueAll_spec:
  "(LastActive s = [] \<longrightarrow> ContinueAll now s = s)
   \<and> (LastActive s \<noteq> [] \<longrightarrow>
        (let s' = ContinueAll now s in
           Streams s' = map (\<lambda>st. if ID st \<in> set (LastActive s) \<and> \<not> Active st
                                    then st\<lparr>Active := True, StartedAt := Some now\<rparr> else st)
                            (Streams s)
         \<and> Sessions s' =
             (if \<not> (\<exists>st \<in> set (Streams s). Active st) \<and> (\<exists>st \<in> set (Streams s'). Active st)
              then Sessions s @ [\<lparr>Start = now, End = None\<rparr>] else Sessions s)
         \<and> LastActive s' = []
         \<and> FilePath s' = FilePath s))"
proof -
  let ?f = "\<lambda>st. if ID st \<in> set (LastActive s) \<and> \<not> Active st
                 then st\<lparr>Active := True, StartedAt := Some now\<rparr> else st"
  have loop: "continueLoop (idTable (LastActive s) (\<lambda>_. False)) now (Streams s)
                = map ?f (Streams s)"
    by (simp add: continueLoop_map idTable_iff)
  have streams: "LastActive s \<noteq> [] \<Longrightarrow> Streams (ContinueAll now s) = map ?f (Streams s)"
    by (simp add: ContinueAll_def Let_def loop)
  show ?thesis
  proof (cases "LastActive s = []")
    case True
    then show ?thesis by (simp add: ContinueAll_def)
  next
    case False
    have "HasActive (s\<lparr>Streams := map ?f (Streams s)\<rparr>)
            \<longleftrightarrow> (\<exists>st \<in> set (Streams (ContinueAll now s)). Active st)"
      using streams [OF False] by (simp add: HasActive_iff)
    with False show ?thesis
      unfolding Let_def
      by (simp add: ContinueAll_def Let_def loop HasActive_iff [of s, symmetric])
  qed
qed

theorem ContinueAll_spec_witness:
  "ContinueAll 7 (mkStore [mkStream ''0a0a0a'' 3 None] [] []) = mkStore [mkStream ''0a0a0a'' 3 None] [] []
   \<and> ContinueAll 7 (mkStore [mkStream ''0a0a0a'' 3 None, mkStream ''0b0b0b'' 4 None]
        [\<lparr>Start = 1, End = Some 2\<rparr>] [''0b0b0b''])
     = mkStore [mkStream ''0a0a0a'' 3 None, mkStream ''0b0b0b'' 4 (Some 7)]
        [\<lparr>Start = 1, End = Some 2\<rparr>, \<lparr>Start = 7, End = None\<rparr>] []"
  using ContinueAll_spec [of "mkStore [mkStream ''0a0a0a'' 3 None] [] []" 7]
        ContinueAll_spec [of "mkStore [mkStream ''0a0a0a'' 3 None, mkStream ''0b0b0b'' 4 None]
        [\<lparr>Start = 1, End = Some 2\<rparr>] [''0b0b0b'']" 7]
  by (simp add: mkStore_def mkStream_def Let_def)

subsection \<open>StopAll\<close>

lemma stopLoop_inactive:
  "\<not> anyActive xs \<Longrightarrow> stopLoop secs tf i xs la = (xs, la)"
  by (induction xs arbitrary: i) (auto split: if_splits)

lemma stopLoop_snd:
  "snd (stopLoop secs tf i xs la) = la @ map ID (filter Active xs)"
  by (induction xs arbitrary: i la) (simp_all add: split_beta)

lemma stopLoop_length:
  "length (fst (stopLoop secs tf i xs la)) = length xs"
  by (induction xs arbitrary: i la) (simp_all add: split_beta)

lemma stopLoop_nth:
  "k < length xs \<Longrightarrow>
   fst (stopLoop secs tf i xs la) ! k =
     (if Active (xs ! k)
      then (flushStream secs (tf (i + k)) (xs ! k))\<lparr>Active := False, StartedAt := None\<rparr>
      else xs ! k)"
proof (induction xs arbitrary: i la k)
  case Nil
  then show ?case by simp
next
  case (Cons st rest)
  show ?case
  proof (cases k)
    case 0
    then show ?thesis by (simp add: split_beta)
  next
    case (Suc k')
    with Cons.prems have "k' < length rest" by simp
    from Cons.IH [OF this] Suc show ?thesis
      by (simp add: split_beta)
  qed
qed

lemma closeFirstOpen_count:
  "\<exists>x \<in> set xs. End x = None \<Longrightarrow>
   Suc (length (filter (\<lambda>x. End x = None) (closeFirstOpen now xs)))
     = length (filter (\<lambda>x. End x = None) xs)"
  by (induction xs) auto

lemma closeSessions_count:
  assumes "\<exists>x \<in> set ss. End x = None"
  shows "Suc (length (filter (\<lambda>x. End x = None) (closeSessions now ss)))
           = length (filter (\<lambda>x. End x = None) ss)"
proof -
  from assms have "\<exists>x \<in> set (rev ss). End x = None" by simp
  from closeFirstOpen_count [OF this, of now] show ?thesis
    by (simp add: closeSessions_def rev_filter [symmetric])
qed

text \<open>
  C10. When no stream is active, \<open>StopAll\<close> still resets \<open>LastActive\<close> to empty and
  changes nothing else (streams and sessions are as before), so a \<open>ContinueAll\<close>
  that follows does nothing.
\<close>

theorem StopAll_nothing_active:
  "\<not> (\<exists>st \<in> set (Streams s). Active st) \<Longrightarrow>
     StopAll secs tf tClose s = s\<lparr>LastActive := []\<rparr>
   \<and> ContinueAll now (StopAll secs tf tClose s) = StopAll secs tf tClose s"
proof -
  assume "\<not> (\<exists>st \<in> set (Streams s). Active st)"
  then have na: "\<not> anyActive (Streams s)" by (simp add: anyActive_iff)
  then have "StopAll secs tf tClose s = s\<lparr>LastActive := []\<rparr>"
    by (simp add: StopAll_def HasActive_def stopLoop_inactive)
  then show ?thesis by (simp add: ContinueAll_def)
qed

theorem StopAll_nothing_active_witness:
  "StopAll wholeSeconds (\<lambda>i. 8) 9 (mkStore [mkStream ''0a0a0a'' 3 None] [\<lparr>Start = 1, End = Some 2\<rparr>] [''0a0a0a''])
     = mkStore [mkStream ''0a0a0a'' 3 None] [\<lparr>Start = 1, End = Some 2\<rparr>] []
   \<and> ContinueAll 10 (StopAll wholeSeconds (\<lambda>i. 8) 9
        (mkStore [mkStream ''0a0a0a'' 3 None] [\<lparr>Start = 1, End = Some 2\<rparr>] [''0a0a0a'']))
     = mkStore [mkStream ''0a0a0a'' 3 None] [\<lparr>Start = 1, End = Some 2\<rparr>] []"
  using StopAll_nothing_active [of "mkStore [mkStream ''0a0a0a'' 3 None] [\<lparr>Start = 1, End = Some 2\<rparr>] [''0a0a0a'']"
     wholeSeconds "\<lambda>i. 8" 9 10]
  by (auto simp: mkStore_def mkStream_def)

text \<open>
  C6. \<open>StopAll\<close> stores in \<open>LastActive\<close> the ids of exactly the streams that were
  active (in store order, whatever \<open>LastActive\<close> held before); every active stream gets
  its running delta added to \<open>Seconds\<close> (the delta of the flush's own clock reading,
  nothing when \<open>StartedAt\<close> is absent), becomes inactive and loses \<open>StartedAt\<close>, and
  inactive streams are untouched; if some stream was active the most recent open session
  is closed at \<open>tClose\<close>, once for the whole batch: the number of open sessions drops by
  exactly one when the log has an open session, and the log is unchanged when no stream
  was active.
\<close>

theorem StopAll_spec:
  "(let s' = StopAll secs tf tClose s;
        act = (\<exists>st \<in> set (Streams s). Active st)
    in LastActive s' = map ID (filter Active (Streams s))
     \<and> length (Streams s') = length (Streams s)
     \<and> (\<forall>i < length (Streams s).
           Streams s' ! i =
             (if Active (Streams s ! i)
              then (Streams s ! i)
                     \<lparr>Seconds := Seconds (Streams s ! i)
                        + (case StartedAt (Streams s ! i) of None \<Rightarrow> 0
                           | Some t0 \<Rightarrow> secs (Sub (tf i) t0)),
                      Active := False, StartedAt := None\<rparr>
              else Streams s ! i))
     \<and> (act \<longrightarrow> closesMostRecent tClose (Sessions s) (Sessions s'))
     \<and> (act \<and> (\<exists>x \<in> set (Sessions s). End x = None) \<longrightarrow>
          Suc (length (filter (\<lambda>x. End x = None) (Sessions s')))
            = length (filter (\<lambda>x. End x = None) (Sessions s)))
     \<and> (\<not> act \<longrightarrow> Sessions s' = Sessions s))"
proof -
  let ?r = "stopLoop secs tf 0 (Streams s) []"
  let ?s' = "StopAll secs tf tClose s"
  have la: "LastActive ?s' = snd ?r"
    by (simp add: StopAll_def Let_def split_beta closeCurrentSession_def)
  have sts: "Streams ?s' = fst ?r"
    by (simp add: StopAll_def Let_def split_beta closeCurrentSession_def)
  have ss: "Sessions ?s' = (if HasActive s then closeSessions tClose (Sessions s) else Sessions s)"
    by (simp add: StopAll_def Let_def split_beta closeCurrentSession_def)
  have 1: "LastActive ?s' = map ID (filter Active (Streams s))"
    by (simp add: la stopLoop_snd)
  have 2: "length (Streams ?s') = length (Streams s)"
    by (simp add: sts stopLoop_length)
  have 3: "\<forall>i < length (Streams s).
           Streams ?s' ! i =
             (if Active (Streams s ! i)
              then (Streams s ! i)
                     \<lparr>Seconds := Seconds (Streams s ! i)
                        + (case StartedAt (Streams s ! i) of None \<Rightarrow> 0
                           | Some t0 \<Rightarrow> secs (Sub (tf i) t0)),
                      Active := False, StartedAt := None\<rparr>
              else Streams s ! i)"
    by (simp add: sts stopLoop_nth flushStream_def split: option.splits)
  have 4: "HasActive s \<longrightarrow> closesMostRecent tClose (Sessions s) (Sessions ?s')"
    by (simp add: ss closeSessions_spec)
  have 5: "HasActive s \<and> (\<exists>x \<in> set (Sessions s). End x = None) \<longrightarrow>
          Suc (length (filter (\<lambda>x. End x = None) (Sessions ?s')))
            = length (filter (\<lambda>x. End x = None) (Sessions s))"
    using closeSessions_count [of "Sessions s" tClose] by (simp add: ss)
  have 6: "\<not> HasActive s \<longrightarrow> Sessions ?s' = Sessions s"
    by (simp add: ss)
  from 1 2 3 4 5 6 show ?thesis
    unfolding Let_def HasActive_iff by blast
qed

theorem StopAll_spec_witness:
  "(let s = mkStore [mkStream ''0a0a0a'' 3 (Some (1 * 1000000000)), mkStream ''0b0b0b'' 4 None,
                      mkStream ''0c0c0c'' 5 (Some (2 * 1000000000))]
                 [\<lparr>Start = 0, End = Some 500\<rparr>, \<lparr>Start = 1 * 1000000000, End = None\<rparr>] [''0b0b0b''];
        s' = StopAll wholeSeconds (\<lambda>i. 10 * 1000000000 + int i) (11 * 1000000000) s
    in LastActive s' = [''0a0a0a'', ''0c0c0c'']
     \<and> map Seconds (Streams s') = [12, 4, 13]
     \<and> map Active (Streams s') = [False, False, False]
     \<and> map StartedAt (Streams s') = [None, None, None]
     \<and> Sessions s' = [\<lparr>Start = 0, End = Some 500\<rparr>,
                       \<lparr>Start = 1 * 1000000000, End = Some (11 * 1000000000)\<rparr>])"
  using StopAll_spec [of wholeSeconds "\<lambda>i. 10 * 1000000000 + int i" "11 * 1000000000"
     "mkStore [mkStream ''0a0a0a'' 3 (Some (1 * 1000000000)), mkStream ''0b0b0b'' 4 None,
                      mkStream ''0c0c0c'' 5 (Some (2 * 1000000000))]
                 [\<lparr>Start = 0, End = Some 500\<rparr>, \<lparr>Start = 1 * 1000000000, End = None\<rparr>] [''0b0b0b'']"]
  by (simp add: mkStore_def mkStream_def Let_def StopAll_def HasActive_def flushStream_def
       closeCurrentSession_def closeSessions_def Sub_def minDuration_def maxDuration_def wholeSeconds_def
       signed_divide_int_def)

subsection \<open>AddStream\<close>

lemma insert_idiom:
  "k < length xs \<Longrightarrow> (take (k + 1) xs @ drop k xs)[k := x] = take k xs @ x # drop k xs"
proof -
  assume k: "k < length xs"
  then have "take (k + 1) xs = take k xs @ [xs ! k]"
    by (simp add: take_Suc_conv_app_nth)
  moreover have "length (take k xs) = k" using k by simp
  ultimately show ?thesis
    by (simp add: list_update_append)
qed

lemma AddStream_streams:
  "Streams (AddStream nid now name at0 s) =
     take (if at0 < 0 then 0 else if int (length (Streams s)) \<le> at0 then length (Streams s)
           else nat at0) (Streams s)
     @ \<lparr>ID = nid, Name = name, Seconds = 0, Active = False, StartedAt = None,
         CreatedAt = now\<rparr>
     # drop (if at0 < 0 then 0 else if int (length (Streams s)) \<le> at0 then length (Streams s)
             else nat at0) (Streams s)"
proof (cases "at0 < 0")
  case True
  then show ?thesis
    using insert_idiom [of 0 "Streams s"]
    by (cases "Streams s") (simp_all add: AddStream_def)
next
  case False
  show ?thesis
  proof (cases "int (length (Streams s)) \<le> at0")
    case True
    with False show ?thesis by (simp add: AddStream_def)
  next
    case le: False
    with False have "nat at0 < length (Streams s)" by simp
    from insert_idiom [OF this] False le show ?thesis
      by (simp add: AddStream_def)
  qed
qed

text \<open>
  C9 (as the code has it). \<open>AddStream\<close> inserts one stream with the id drawn by
  \<open>newID()\<close>, the given name, zero seconds, inactive, no \<open>StartedAt\<close> and
  \<open>CreatedAt = now\<close>, at the position clamped to \<open>[0, len]\<close>: index 0 for a negative
  position, the end for a position \<open>\<ge> len\<close>; the streams already present keep their
  order on both sides of it, and sessions, \<open>LastActive\<close> and the file path are
  unchanged. The drawn id is not compared with the ids in the store: ids are pairwise
  distinct afterwards exactly when they were before and the drawn id was not present.
\<close>

theorem AddStream_spec:
  "(let n = length (Streams s);
        k = (if at0 < 0 then 0 else if int n \<le> at0 then n else nat at0);
        st = \<lparr>ID = nid, Name = name, Seconds = 0, Active = False, StartedAt = None,
              CreatedAt = now\<rparr>;
        s' = AddStream nid now name at0 s
    in Streams s' = take k (Streams s) @ st # drop k (Streams s)
     \<and> Sessions s' = Sessions s \<and> LastActive s' = LastActive s \<and> FilePath s' = FilePath s
     \<and> (distinct (map ID (Streams s'))
          \<longleftrightarrow> nid \<notin> ID ` set (Streams s) \<and> distinct (map ID (Streams s))))"
proof -
  let ?n = "length (Streams s)"
  let ?k = "if at0 < 0 then 0 else if int ?n \<le> at0 then ?n else nat at0"
  let ?st = "\<lparr>ID = nid, Name = name, Seconds = 0, Active = False, StartedAt = None,
              CreatedAt = now\<rparr>"
  have ins: "Streams (AddStream nid now name at0 s) = take ?k (Streams s) @ ?st # drop ?k (Streams s)"
    by (rule AddStream_streams)
  have rest: "Sessions (AddStream nid now name at0 s) = Sessions s"
    "LastActive (AddStream nid now name at0 s) = LastActive s"
    "FilePath (AddStream nid now name at0 s) = FilePath s"
    by (simp_all add: AddStream_def Let_def)
  have "take ?k (Streams s) @ drop ?k (Streams s) = Streams s"
    by (rule append_take_drop_id)
  then have mapid: "map ID (take ?k (Streams s)) @ map ID (drop ?k (Streams s)) = map ID (Streams s)"
    by (metis map_append)
  have setid: "set (take ?k (Streams s)) \<union> set (drop ?k (Streams s)) = set (Streams s)"
    by (metis append_take_drop_id set_append)
  have "distinct (map ID (take ?k (Streams s) @ ?st # drop ?k (Streams s)))
          \<longleftrightarrow> nid \<notin> ID ` set (Streams s) \<and> distinct (map ID (Streams s))"
    unfolding mapid [symmetric] setid [symmetric] by auto
  with ins rest show ?thesis
    unfolding Let_def by simp
qed

theorem AddStream_spec_witness:
  "map ID (Streams (AddStream ''0c0c0c'' 9 ''C'' (-5) (mkStore [mkStream ''0a0a0a'' 0 None, mkStream ''0b0b0b'' 0 None] [] [])))
     = [''0c0c0c'', ''0a0a0a'', ''0b0b0b'']
   \<and> map ID (Streams (AddStream ''0c0c0c'' 9 ''C'' 1 (mkStore [mkStream ''0a0a0a'' 0 None, mkStream ''0b0b0b'' 0 None] [] [])))
     = [''0a0a0a'', ''0c0c0c'', ''0b0b0b'']
   \<and> map ID (Streams (AddStream ''0c0c0c'' 9 ''C'' 100 (mkStore [mkStream ''0a0a0a'' 0 None, mkStream ''0b0b0b'' 0 None] [] [])))
     = [''0a0a0a'', ''0b0b0b'', ''0c0c0c'']
   \<and> distinct (map ID (Streams (AddStream ''0c0c0c'' 9 ''C'' 1 (mkStore [mkStream ''0a0a0a'' 0 None, mkStream ''0b0b0b'' 0 None] [] []))))"
  using AddStream_spec [of "mkStore [mkStream ''0a0a0a'' 0 None, mkStream ''0b0b0b'' 0 None] [] []" "-5" "''0c0c0c''" "''C''" 9]
        AddStream_spec [of "mkStore [mkStream ''0a0a0a'' 0 None, mkStream ''0b0b0b'' 0 None] [] []" 1 "''0c0c0c''" "''C''" 9]
        AddStream_spec [of "mkStore [mkStream ''0a0a0a'' 0 None, mkStream ''0b0b0b'' 0 None] [] []" 100 "''0c0c0c''" "''C''" 9]
  by (simp add: mkStore_def mkStream_def Let_def)

text \<open>
  C9 as stated promises a unique id. When \<open>newID()\<close> draws the id of a stream already in
  the store, the store holds two streams with that id.
\<close>

theorem AddStream_unique_id_counterexample:
  "\<not> distinct (map ID (Streams (AddStream ''0a0a0a'' 9 ''B'' 0
        (mkStore [mkStream ''0a0a0a'' 0 None] [] []))))"
  by (simp add: AddStream_def mkStore_def mkStream_def)

subsection \<open>Session invariants of reachable stores\<close>

lemma intersects_iff: "intersects a b \<longleftrightarrow> (\<exists>t. inSession t a \<and> inSession t b)"
proof
  assume i: "intersects a b"
  let ?t = "max (Start a) (Start b)"
  have "before ?t (End a)" "before ?t (End b)"
    using i by (auto simp: intersects_def max_def)
  then have "inSession ?t a \<and> inSession ?t b"
    by (simp add: inSession_def)
  then show "\<exists>t. inSession t a \<and> inSession t b" ..
next
  assume "\<exists>t. inSession t a \<and> inSession t b"
  then obtain t where t: "Start a \<le> t" "before t (End a)" "Start b \<le> t" "before t (End b)"
    by (auto simp: inSession_def)
  have mono: "\<And>u v e. u \<le> v \<Longrightarrow> before v e \<Longrightarrow> before u e"
    by (case_tac e) auto
  from t show "intersects a b"
    unfolding intersects_def by (blast intro: mono)
qed

lemma intersects_sym: "intersects a b \<longleftrightarrow> intersects b a"
  by (auto simp: intersects_def)

lemma nonOverlapping_sorted_wrt:
  "nonOverlapping ss \<longleftrightarrow> sorted_wrt (\<lambda>a b. \<not> intersects a b) ss"
proof
  assume "nonOverlapping ss"
  then show "sorted_wrt (\<lambda>a b. \<not> intersects a b) ss"
    by (simp add: nonOverlapping_def sorted_wrt_iff_nth_less)
next
  assume s: "sorted_wrt (\<lambda>a b. \<not> intersects a b) ss"
  show "nonOverlapping ss"
    unfolding nonOverlapping_def
  proof (intro allI impI)
    fix i j assume "i < length ss" "j < length ss" "i \<noteq> j"
    then consider "i < j" | "j < i" by arith
    then show "\<not> intersects (ss ! i) (ss ! j)"
    proof cases
      case 1
      with s \<open>j < length ss\<close> show ?thesis by (simp add: sorted_wrt_iff_nth_less)
    next
      case 2
      with s \<open>i < length ss\<close> have "\<not> intersects (ss ! j) (ss ! i)"
        by (simp add: sorted_wrt_iff_nth_less)
      then show ?thesis by (simp add: intersects_sym)
    qed
  qed
qed

lemma Start_in_bounds: "x \<in> set ss \<Longrightarrow> Start x \<in> set (bounds ss)"
  by (induction ss) auto

lemma bounds_append: "bounds (xs @ ys) = bounds xs @ bounds ys"
  by (induction xs) auto

lemma ordered_nonOverlapping:
  "sorted (bounds ss) \<Longrightarrow> \<forall>x \<in> set (butlast ss). End x \<noteq> None \<Longrightarrow>
   sorted_wrt (\<lambda>a b. \<not> intersects a b) ss"
proof (induction ss)
  case Nil
  then show ?case by simp
next
  case (Cons x xs)
  show ?case
  proof (cases "xs = []")
    case True
    then show ?thesis by simp
  next
    case False
    with Cons.prems(2) obtain e where e: "End x = Some e" by auto
    from Cons.prems(1) e have le: "\<forall>b \<in> set (bounds xs). e \<le> b" and srt: "sorted (bounds xs)"
      by auto
    have "\<forall>y \<in> set xs. \<not> intersects x y"
    proof
      fix y assume "y \<in> set xs"
      then have "e \<le> Start y" using le Start_in_bounds by blast
      then show "\<not> intersects x y" by (simp add: intersects_def e)
    qed
    moreover have "sorted_wrt (\<lambda>a b. \<not> intersects a b) xs"
      using Cons.IH [OF srt] Cons.prems(2) False by simp
    ultimately show ?thesis by simp
  qed
qed

lemma closed_butlast_atMostOneOpen:
  "\<forall>x \<in> set (butlast ss). End x \<noteq> None \<Longrightarrow> atMostOneOpen ss"
proof (cases "ss = []")
  case True
  then show ?thesis by (simp add: atMostOneOpen_def)
next
  case False
  assume c: "\<forall>x \<in> set (butlast ss). End x \<noteq> None"
  have "ss = butlast ss @ [last ss]" using False by simp
  then have "filter (\<lambda>x. End x = None) ss
      = filter (\<lambda>x. End x = None) (butlast ss) @ filter (\<lambda>x. End x = None) [last ss]"
    by (metis filter_append)
  moreover have "filter (\<lambda>x. End x = None) (butlast ss) = []"
    using c by (simp add: filter_empty_conv)
  ultimately show ?thesis by (simp add: atMostOneOpen_def)
qed

lemma sessionInv_holds:
  "sessionInv T s \<Longrightarrow> atMostOneOpen (Sessions s) \<and> nonOverlapping (Sessions s)"
  by (simp add: sessionInv_def closed_butlast_atMostOneOpen nonOverlapping_sorted_wrt
        ordered_nonOverlapping)

lemma closeSessions_last_open:
  assumes "ss \<noteq> []" "End (last ss) = None"
  shows "closeSessions t ss = butlast ss @ [(last ss)\<lparr>End := Some t\<rparr>]"
proof -
  have "ss = butlast ss @ [last ss]" using assms(1) by simp
  then have r: "rev ss = last ss # rev (butlast ss)"
    by (metis rev_append append_Cons append_Nil rev_singleton_conv)
  have "closeFirstOpen t (last ss # rev (butlast ss))
          = (last ss)\<lparr>End := Some t\<rparr> # rev (butlast ss)"
    using assms(2) by simp
  then show ?thesis
    unfolding closeSessions_def r by simp
qed

lemma closeSessions_all_closed:
  "\<forall>x \<in> set ss. End x \<noteq> None \<Longrightarrow> closeSessions t ss = ss"
  by (simp add: closeSessions_def closeFirstOpen_closed)

lemma sessionInv_append:
  assumes inv: "sessionInv T s" and had: "\<not> HasActive s" and le: "T \<le> t"
    and has: "HasActive s'" and ss: "Sessions s' = Sessions s @ [\<lparr>Start = t, End = None\<rparr>]"
  shows "sessionInv t s'"
proof -
  from inv have srt: "sorted (bounds (Sessions s))"
    and bnd: "\<forall>b \<in> set (bounds (Sessions s)). b \<le> T"
    and bl: "\<forall>x \<in> set (butlast (Sessions s)). End x \<noteq> None"
    and act: "HasActive s \<longleftrightarrow> Sessions s \<noteq> [] \<and> End (last (Sessions s)) = None"
    by (simp_all add: sessionInv_def)
  have closed: "\<forall>x \<in> set (Sessions s). End x \<noteq> None"
  proof (cases "Sessions s = []")
    case True
    then show ?thesis by simp
  next
    case False
    then have "Sessions s = butlast (Sessions s) @ [last (Sessions s)]" by simp
    then have "set (Sessions s) = set (butlast (Sessions s)) \<union> {last (Sessions s)}"
      by (metis set_append list.set(2) empty_set)
    moreover have "End (last (Sessions s)) \<noteq> None" using had act False by simp
    ultimately show ?thesis using bl by auto
  qed
  have "sorted (bounds (Sessions s'))"
    using srt bnd le by (auto simp: ss bounds_append sorted_append)
  moreover have "\<forall>b \<in> set (bounds (Sessions s')). b \<le> t"
    using bnd le by (auto simp: ss bounds_append)
  moreover have "\<forall>x \<in> set (butlast (Sessions s')). End x \<noteq> None"
    using closed by (simp add: ss)
  moreover have "HasActive s' \<longleftrightarrow> Sessions s' \<noteq> [] \<and> End (last (Sessions s')) = None"
    using has by (simp add: ss)
  ultimately show ?thesis by (simp add: sessionInv_def)
qed

lemma sessionInv_close:
  assumes inv: "sessionInv T s" and had: "HasActive s" and le: "T \<le> t"
    and has: "\<not> HasActive s'" and ss: "Sessions s' = closeSessions t (Sessions s)"
  shows "sessionInv t s'"
proof -
  from inv have srt: "sorted (bounds (Sessions s))"
    and bnd: "\<forall>b \<in> set (bounds (Sessions s)). b \<le> T"
    and bl: "\<forall>x \<in> set (butlast (Sessions s)). End x \<noteq> None"
    and act: "HasActive s \<longleftrightarrow> Sessions s \<noteq> [] \<and> End (last (Sessions s)) = None"
    by (simp_all add: sessionInv_def)
  from had act have ne: "Sessions s \<noteq> []" and lo: "End (last (Sessions s)) = None" by simp_all
  let ?b = "butlast (Sessions s)" and ?l = "last (Sessions s)"
  have new: "Sessions s' = ?b @ [?l\<lparr>End := Some t\<rparr>]"
    by (simp add: ss closeSessions_last_open [OF ne lo])
  have old: "Sessions s = ?b @ [?l]" using ne by simp
  have bo: "bounds (Sessions s) = bounds ?b @ [Start ?l]"
    using lo by (subst old) (simp add: bounds_append)
  have bn: "bounds (Sessions s') = bounds (Sessions s) @ [t]"
    by (simp add: new bo bounds_append)
  have "sorted (bounds (Sessions s'))"
    using srt bnd le by (auto simp: bn sorted_append)
  moreover have "\<forall>b \<in> set (bounds (Sessions s')). b \<le> t"
    using bnd le by (auto simp: bn)
  moreover have "\<forall>x \<in> set (butlast (Sessions s')). End x \<noteq> None"
    using bl by (simp add: new)
  moreover have "HasActive s' \<longleftrightarrow> Sessions s' \<noteq> [] \<and> End (last (Sessions s')) = None"
    using has by (simp add: new)
  ultimately show ?thesis by (simp add: sessionInv_def)
qed

lemma sessionInv_same:
  assumes "sessionInv T s" "T \<le> t" "HasActive s' = HasActive s" "Sessions s' = Sessions s"
  shows "sessionInv t s'"
  using assms by (auto simp: sessionInv_def)

lemma anyActive_append: "anyActive (xs @ ys) \<longleftrightarrow> anyActive xs \<or> anyActive ys"
  by (simp add: anyActive_iff) blast

lemma HasActive_AddStream: "HasActive (AddStream nid now name at0 s) = HasActive s"
proof -
  let ?n = "length (Streams s)"
  let ?k = "if at0 < 0 then 0 else if int ?n \<le> at0 then ?n else nat at0"
  let ?st = "\<lparr>ID = nid, Name = name, Seconds = 0, Active = False, StartedAt = None,
              CreatedAt = now\<rparr>"
  have "Streams (AddStream nid now name at0 s) = take ?k (Streams s) @ ?st # drop ?k (Streams s)"
    by (rule AddStream_streams)
  then have "anyActive (Streams (AddStream nid now name at0 s))
      \<longleftrightarrow> anyActive (take ?k (Streams s) @ drop ?k (Streams s))"
    by (simp add: anyActive_iff del: append_take_drop_id)
  then show ?thesis by (simp add: HasActive_def)
qed

lemma set_deleteFirst: "set (deleteFirst id0 xs) \<subseteq> set xs"
  by (induction xs) auto

lemma HasActive_DeleteStream: "HasActive (DeleteStream id0 s) \<Longrightarrow> HasActive s"
  using set_deleteFirst [of id0 "Streams s"]
  by (auto simp: HasActive_iff DeleteStream_def)

lemma stopLoop_not_active: "\<not> anyActive (fst (stopLoop secs tf i xs la))"
  by (induction xs arbitrary: i la) (simp_all add: split_beta)

lemma StopAll_sessions:
  "Sessions (StopAll secs tf tClose s)
     = (if HasActive s then closeSessions tClose (Sessions s) else Sessions s)"
  by (simp add: StopAll_def Let_def split_beta closeCurrentSession_def)

lemma StopAll_not_active: "\<not> HasActive (StopAll secs tf tClose s)"
  using stopLoop_not_active [of secs tf 0 "Streams s" "[]"]
  by (simp add: StopAll_def Let_def split_beta HasActive_def closeCurrentSession_def)

lemma ToggleStream_sessions:
  "Sessions (ToggleStream secs tStream tSession id0 s)
     = (if \<not> HasActive s \<and> HasActive (ToggleStream secs tStream tSession id0 s)
        then Sessions s @ [\<lparr>Start = tSession, End = None\<rparr>]
        else if HasActive s \<and> \<not> HasActive (ToggleStream secs tStream tSession id0 s)
        then closeSessions tSession (Sessions s) else Sessions s)"
  by (simp add: ToggleStream_def Let_def closeCurrentSession_def)

lemma continueLoop_keeps_active: "anyActive xs \<Longrightarrow> anyActive (continueLoop ids now xs)"
  by (induction xs) (auto split: if_splits)

lemma ContinueAll_keeps_active: "HasActive s \<Longrightarrow> HasActive (ContinueAll now s)"
  by (simp add: ContinueAll_def Let_def HasActive_def continueLoop_keeps_active)

lemma ContinueAll_sessions:
  "Sessions (ContinueAll now s)
     = (if \<not> HasActive s \<and> HasActive (ContinueAll now s)
        then Sessions s @ [\<lparr>Start = now, End = None\<rparr>] else Sessions s)"
  by (simp add: ContinueAll_def Let_def HasActive_def)

lemma step_sessionInv:
  assumes "step secs T s T' s'" "sessionInv T s"
  shows "sessionInv T' s'"
  using assms
proof (induction rule: step.induct)
  case (add T now s nid name at0)
  have "Sessions (AddStream nid now name at0 s) = Sessions s"
    by (simp add: AddStream_def Let_def)
  with add show ?case
    by - (rule sessionInv_same [of T s], simp_all add: HasActive_AddStream)
next
  case (delete id0 s T)
  then have "HasActive (DeleteStream id0 s) = HasActive s"
    using HasActive_DeleteStream by blast
  with delete show ?case
    by - (rule sessionInv_same [of T s], simp_all add: DeleteStream_def)
next
  case (toggle T tStream tSession s id0)
  let ?s' = "ToggleStream secs tStream tSession id0 s"
  from toggle have le: "T \<le> tSession" by simp
  consider "\<not> HasActive s \<and> HasActive ?s'" | "HasActive s \<and> \<not> HasActive ?s'"
    | "HasActive ?s' = HasActive s" by blast
  then show ?case
  proof cases
    case 1
    then show ?thesis
      using toggle(3) le by - (rule sessionInv_append [of T s], simp_all add: ToggleStream_sessions)
  next
    case 2
    then show ?thesis
      using toggle(3) le by - (rule sessionInv_close [of T s], simp_all add: ToggleStream_sessions)
  next
    case 3
    then show ?thesis
      using toggle(3) le by - (rule sessionInv_same [of T s], auto simp: ToggleStream_sessions)
  qed
next
  case (stop s T tf tClose)
  show ?case
  proof (cases "HasActive s")
    case True
    then show ?thesis
      using stop by - (rule sessionInv_close [of T s], simp_all add: StopAll_sessions StopAll_not_active)
  next
    case False
    then show ?thesis
      using stop by - (rule sessionInv_same [of T s], simp_all add: StopAll_sessions StopAll_not_active)
  qed
next
  case (continue T now s)
  let ?s' = "ContinueAll now s"
  consider "\<not> HasActive s \<and> HasActive ?s'" | "HasActive ?s' = HasActive s"
    using ContinueAll_keeps_active [of s now] by blast
  then show ?case
  proof cases
    case 1
    then show ?thesis
      using continue by - (rule sessionInv_append [of T s], simp_all add: ContinueAll_sessions)
  next
    case 2
    then show ?thesis
      using continue by - (rule sessionInv_same [of T s], auto simp: ContinueAll_sessions)
  qed
qed

lemma reach_sessionInv: "reach secs T s \<Longrightarrow> sessionInv T s"
proof (induction rule: reach.induct)
  case (init T path)
  then show ?case by (simp add: sessionInv_def newStore_def HasActive_def)
next
  case (next_op T s T' s')
  then show ?case using step_sessionInv by blast
qed

lemma logGrows_refl: "logGrows ss ss"
  by (simp add: logGrows_def)

lemma logGrows_append: "logGrows ss (ss @ [x])"
  by (simp add: logGrows_def nth_append)

lemma logGrows_close: "logGrows ss (closeSessions t ss)"
proof -
  have "closesMostRecent t ss (closeSessions t ss)" by (rule closeSessions_spec)
  then show ?thesis
    unfolding closesMostRecent_def logGrows_def
    by (auto simp: nth_list_update split: if_splits)
qed

lemma step_logGrows: "step secs T s T' s' \<Longrightarrow> logGrows (Sessions s) (Sessions s')"
proof (induction rule: step.induct)
  case (add T now s nid name at0)
  then show ?case by (simp add: AddStream_def Let_def logGrows_refl)
next
  case (delete id0 s T)
  then show ?case by (simp add: DeleteStream_def logGrows_refl)
next
  case (toggle T tStream tSession s id0)
  then show ?case
    by (simp add: ToggleStream_sessions logGrows_refl logGrows_append logGrows_close)
next
  case (stop s T tf tClose)
  then show ?case by (simp add: StopAll_sessions logGrows_refl logGrows_close)
next
  case (continue T now s)
  then show ?case by (simp add: ContinueAll_sessions logGrows_refl logGrows_append)
qed

text \<open>
  C2 (as the code has it). In every store reached from the empty store by \<open>AddStream\<close>,
  \<open>ToggleStream\<close>, \<open>StopAll\<close>, \<open>ContinueAll\<close> and those \<open>DeleteStream\<close> calls
  that do not remove the last active stream, under a clock that never runs backwards, at
  most one session is open and no two sessions' intervals \<open>[start, end)\<close> intersect;
  and every further operation only grows the log: sessions keep their index and start,
  a closed session keeps its end, nothing is removed, merged or split.
\<close>

theorem reachable_session_log:
  assumes "reach secs T s"
  shows "atMostOneOpen (Sessions s) \<and> nonOverlapping (Sessions s)
       \<and> (\<forall>T' s'. step secs T s T' s' \<longrightarrow> logGrows (Sessions s) (Sessions s'))"
  using sessionInv_holds [OF reach_sessionInv [OF assms]] step_logGrows by blast

lemma toggleRun_sessions:
  "Sessions toggleRun = [\<lparr>Start = 3, End = Some 5\<rparr>, \<lparr>Start = 7, End = None\<rparr>]"
  by (simp add: toggleRun_def newStore_def AddStream_def ToggleStream_def HasActive_def
        flushStream_def closeCurrentSession_def closeSessions_def Let_def)

theorem reachable_session_log_witness:
  "reach wholeSeconds 7 toggleRun
   \<and> atMostOneOpen [\<lparr>Start = 3, End = Some 5\<rparr>, \<lparr>Start = 7, End = None\<rparr>]
   \<and> nonOverlapping [\<lparr>Start = 3, End = Some 5\<rparr>, \<lparr>Start = 7, End = None\<rparr>]
   \<and> logGrows [\<lparr>Start = 3, End = Some 5\<rparr>, \<lparr>Start = 7, End = None\<rparr>]
        (Sessions (StopAll wholeSeconds (\<lambda>i. 8) 9 toggleRun))"
proof -
  have r0: "reach wholeSeconds 1 (newStore ''urd.json'')"
    by (rule reach.init)
  have r1: "reach wholeSeconds 1 (AddStream ''0a0a0a'' 1 ''A'' 0 (newStore ''urd.json''))"
    by (rule reach.next_op [OF r0 step.add]) simp
  have r2: "reach wholeSeconds 3 (ToggleStream wholeSeconds 2 3 ''0a0a0a''
              (AddStream ''0a0a0a'' 1 ''A'' 0 (newStore ''urd.json'')))"
    by (rule reach.next_op [OF r1 step.toggle]) simp_all
  have r3: "reach wholeSeconds 5 (ToggleStream wholeSeconds 4 5 ''0a0a0a''
              (ToggleStream wholeSeconds 2 3 ''0a0a0a''
                (AddStream ''0a0a0a'' 1 ''A'' 0 (newStore ''urd.json''))))"
    by (rule reach.next_op [OF r2 step.toggle]) simp_all
  have r4: "reach wholeSeconds 7 toggleRun"
    unfolding toggleRun_def by (rule reach.next_op [OF r3 step.toggle]) simp_all
  have st: "step wholeSeconds 7 toggleRun 9 (StopAll wholeSeconds (\<lambda>i. 8) 9 toggleRun)"
    by (rule step.stop) simp_all
  from reachable_session_log [OF r4] st r4 show ?thesis
    by (simp add: toggleRun_sessions)
qed

text \<open>
  C2 as stated allows every \<open>DeleteStream\<close>. Deleting the only active stream leaves
  its session open, and the next activation appends a second open session: two open
  sessions whose intervals intersect.
\<close>

theorem delete_active_counterexample:
  "Sessions deleteRun = [\<lparr>Start = 3, End = None\<rparr>, \<lparr>Start = 6, End = None\<rparr>]
   \<and> \<not> atMostOneOpen (Sessions deleteRun)
   \<and> \<not> nonOverlapping (Sessions deleteRun)"
proof -
  have s: "Sessions deleteRun = [\<lparr>Start = 3, End = None\<rparr>, \<lparr>Start = 6, End = None\<rparr>]"
    by (simp add: deleteRun_def newStore_def AddStream_def ToggleStream_def DeleteStream_def
        HasActive_def flushStream_def closeCurrentSession_def closeSessions_def Let_def)
  have "intersects \<lparr>Start = 3, End = None\<rparr> \<lparr>Start = 6, End = None\<rparr>"
    by (simp add: intersects_def)
  then have "\<not> nonOverlapping [\<lparr>Start = 3, End = None\<rparr>, \<lparr>Start = 6, End = None\<rparr>]"
    by (simp add: nonOverlapping_sorted_wrt)
  then show ?thesis by (simp add: s atMostOneOpen_def)
qed

lemma closeSessions_leaves_none_open:
  assumes "atMostOneOpen ss"
  shows "\<forall>x \<in> set (closeSessions t ss). End x \<noteq> None"
proof (cases "\<exists>x \<in> set ss. End x = None")
  case True
  from closeSessions_count [OF True, of t] assms
  have "length (filter (\<lambda>x. End x = None) (closeSessions t ss)) = 0"
    unfolding atMostOneOpen_def by arith
  then show ?thesis by (simp add: filter_empty_conv)
next
  case False
  then show ?thesis by (simp add: closeSessions_all_closed)
qed

subsection \<open>Deleting an active stream\<close>

lemma deleteFirst_absent:
  "\<forall>st \<in> set xs. ID st \<noteq> id0 \<Longrightarrow> deleteFirst id0 xs = xs"
  by (induction xs) auto

lemma deleteFirst_first:
  "k < length xs \<Longrightarrow> ID (xs ! k) = id0 \<Longrightarrow> \<forall>j < k. ID (xs ! j) \<noteq> id0 \<Longrightarrow>
   deleteFirst id0 xs = take k xs @ drop (Suc k) xs"
proof (induction xs arbitrary: k)
  case Nil
  then show ?case by simp
next
  case (Cons st rest)
  show ?case
  proof (cases k)
    case 0
    with Cons.prems show ?thesis by simp
  next
    case (Suc k')
    with Cons.prems have hd: "ID st \<noteq> id0" by auto
    have "k' < length rest" "ID (rest ! k') = id0" using Cons.prems Suc by simp_all
    moreover have "\<forall>j < k'. ID (rest ! j) \<noteq> id0"
    proof (intro allI impI)
      fix j assume "j < k'"
      then have "Suc j < k" using Suc by simp
      with Cons.prems(3) have "ID ((st # rest) ! Suc j) \<noteq> id0" by blast
      then show "ID (rest ! j) \<noteq> id0" by simp
    qed
    ultimately have "deleteFirst id0 rest = take k' rest @ drop (Suc k') rest"
      by (rule Cons.IH)
    with hd Suc show ?thesis by simp
  qed
qed

lemma swapAt_mset: "mset (swapAt p xs) = mset xs"
  by (simp add: swapAt_def mset_swap)

lemma applySwaps_mset: "mset (applySwaps ps xs) = mset xs"
  by (induction ps arbitrary: xs) (simp_all add: swapAt_mset)

lemma applySwaps_set: "set (applySwaps ps xs) = set xs"
  using applySwaps_mset [of ps xs] by (metis set_mset_mset)

lemma applySwaps_length: "length (applySwaps ps xs) = length xs"
  using applySwaps_mset [of ps xs] by (metis size_mset)

text \<open>
  C5 (as the code has it). \<open>DeleteStream\<close> removes the first stream whose id is the
  given one, leaves the store as it is when no stream has that id, and never touches the
  session log, \<open>LastActive\<close> or the file path. The session is closed by the caller,
  \<open>performDelete\<close>: when the stream under the cursor is active and is the only active
  stream, \<open>performDelete\<close> returns a model in which no stream is active and the most
  recent open session has its end set to the clock reading; if the log had at most one
  open session, none is open afterwards.
\<close>

theorem performDelete_closes_session:
  assumes cur: "0 \<le> cursor m" "cursor m < int (length (Streams (store m)))"
    and act: "Active (Streams (store m) ! nat (cursor m))"
    and only: "\<forall>j < length (Streams (store m)).
                 j \<noteq> nat (cursor m) \<longrightarrow> \<not> Active (Streams (store m) ! j)"
  shows "((\<forall>st \<in> set (Streams s). ID st \<noteq> id0) \<longrightarrow> DeleteStream id0 s = s)
       \<and> (\<forall>k < length (Streams s).
             ID (Streams s ! k) = id0 \<and> (\<forall>j < k. ID (Streams s ! j) \<noteq> id0) \<longrightarrow>
             Streams (DeleteStream id0 s) = take k (Streams s) @ drop (Suc k) (Streams s))
       \<and> Sessions (DeleteStream id0 s) = Sessions s
       \<and> LastActive (DeleteStream id0 s) = LastActive s
       \<and> FilePath (DeleteStream id0 s) = FilePath s
       \<and> (\<exists>m'. performDelete swaps marshal tClose m = Inr m'
             \<and> \<not> (\<exists>st \<in> set (Streams (store m')). Active st)
             \<and> closesMostRecent tClose (Sessions (store m)) (Sessions (store m'))
             \<and> (atMostOneOpen (Sessions (store m))
                  \<longrightarrow> (\<forall>x \<in> set (Sessions (store m')). End x \<noteq> None)))"
proof -
  let ?xs = "Streams (store m)"
  let ?i = "nat (cursor m)"
  let ?stream = "?xs ! ?i"
  let ?s1 = "(store m)\<lparr>Streams := ?xs[?i := ?stream\<lparr>Active := False, StartedAt := None\<rparr>]\<rparr>"
  let ?s2 = "DeleteStream (ID ?stream) ?s1"
  let ?s3 = "closeCurrentSession tClose ?s2"
  let ?s4 = "SortStreams swaps ?s3"
  have d1: "(\<forall>st \<in> set (Streams s). ID st \<noteq> id0) \<longrightarrow> DeleteStream id0 s = s"
    by (simp add: DeleteStream_def deleteFirst_absent)
  have d2: "\<forall>k < length (Streams s).
             ID (Streams s ! k) = id0 \<and> (\<forall>j < k. ID (Streams s ! j) \<noteq> id0) \<longrightarrow>
             Streams (DeleteStream id0 s) = take k (Streams s) @ drop (Suc k) (Streams s)"
    by (simp add: DeleteStream_def deleteFirst_first)
  have d3: "Sessions (DeleteStream id0 s) = Sessions s"
    "LastActive (DeleteStream id0 s) = LastActive s"
    "FilePath (DeleteStream id0 s) = FilePath s"
    by (simp_all add: DeleteStream_def)
  have i: "?i < length ?xs" using cur by simp
  have ne: "length ?xs \<noteq> 0" using i by arith
  have inact1: "\<forall>st \<in> set (Streams ?s1). \<not> Active st"
  proof
    fix st assume "st \<in> set (Streams ?s1)"
    then obtain j where j: "j < length ?xs"
      "st = ?xs[?i := ?stream\<lparr>Active := False, StartedAt := None\<rparr>] ! j"
      by (auto simp: in_set_conv_nth)
    show "\<not> Active st"
    proof (cases "j = ?i")
      case True
      with j i show ?thesis by simp
    next
      case False
      with j only show ?thesis by simp
    qed
  qed
  have inact2: "\<forall>st \<in> set (Streams ?s2). \<not> Active st"
    using inact1 set_deleteFirst [of "ID ?stream" "Streams ?s1"]
    by (auto simp: DeleteStream_def)
  then have na2: "\<not> HasActive ?s2" by (simp add: HasActive_iff)
  have inact4: "\<forall>st \<in> set (Streams ?s4). \<not> Active st"
    using inact2 by (simp add: SortStreams_def closeCurrentSession_def applySwaps_set)
  have ss4: "Sessions ?s4 = closeSessions tClose (Sessions (store m))"
    by (simp add: SortStreams_def closeCurrentSession_def DeleteStream_def)
  obtain err fs' where sv: "Save marshal ?s4 (disk m) = (err, fs')"
    by (cases "Save marshal ?s4 (disk m)")
  let ?c = "if int (length (Streams ?s4)) \<le> cursor m \<and> 0 < cursor m
            then cursor m - 1 else cursor m"
  let ?m' = "m\<lparr>store := ?s4, cursor := ?c, ticking := False, disk := fs'\<rparr>"
  have na4: "\<not> HasActive ?s4" using inact4 by (simp add: HasActive_iff)
  have run: "performDelete swaps marshal tClose m = Inr ?m'"
    using ne cur act na2 na4 sv
    by (simp add: performDelete_def Let_def)
  have "\<not> (\<exists>st \<in> set (Streams (store ?m')). Active st)"
    using inact4 by simp
  moreover have "closesMostRecent tClose (Sessions (store m)) (Sessions (store ?m'))"
    by (simp add: ss4 closeSessions_spec)
  moreover have "atMostOneOpen (Sessions (store m))
                  \<longrightarrow> (\<forall>x \<in> set (Sessions (store ?m')). End x \<noteq> None)"
    using closeSessions_leaves_none_open [of "Sessions (store m)" tClose] by (simp add: ss4)
  ultimately have "\<exists>m'. performDelete swaps marshal tClose m = Inr m'
             \<and> \<not> (\<exists>st \<in> set (Streams (store m')). Active st)
             \<and> closesMostRecent tClose (Sessions (store m)) (Sessions (store m'))
             \<and> (atMostOneOpen (Sessions (store m))
                  \<longrightarrow> (\<forall>x \<in> set (Sessions (store m')). End x \<noteq> None))"
    using run by blast
  with d1 d2 d3 show ?thesis by blast
qed

text \<open>
  C5 as stated is about \<open>DeleteStream\<close>: deleting the only active stream with it
  leaves the open session open while no stream is left.
\<close>

theorem DeleteStream_leaves_session_open_counterexample:
  "Streams (DeleteStream ''0a0a0a''
      (mkStore [mkStream ''0a0a0a'' 0 (Some 3)] [\<lparr>Start = 3, End = None\<rparr>] [])) = []
   \<and> Sessions (DeleteStream ''0a0a0a''
      (mkStore [mkStream ''0a0a0a'' 0 (Some 3)] [\<lparr>Start = 3, End = None\<rparr>] []))
       = [\<lparr>Start = 3, End = None\<rparr>]"
  by (simp add: DeleteStream_def mkStore_def mkStream_def)

theorem performDelete_closes_session_witness:
  "(case performDelete [(0, 0)] plainMarshal 9 deleteModel of
      Inl e \<Rightarrow> False
    | Inr m' \<Rightarrow> Streams (store m') = [] \<and> Sessions (store m') = [\<lparr>Start = 3, End = Some 9\<rparr>])
   \<and> map ID (Streams (DeleteStream ''0b0b0b''
        (mkStore [mkStream ''0a0a0a'' 1 None, mkStream ''0b0b0b'' 2 None,
                  mkStream ''0b0b0b'' 3 None] [] []))) = [''0a0a0a'', ''0b0b0b'']
   \<and> map Seconds (Streams (DeleteStream ''0b0b0b''
        (mkStore [mkStream ''0a0a0a'' 1 None, mkStream ''0b0b0b'' 2 None,
                  mkStream ''0b0b0b'' 3 None] [] []))) = [1, 3]
   \<and> DeleteStream ''0c0c0c'' (mkStore [mkStream ''0a0a0a'' 1 None] [] [])
       = mkStore [mkStream ''0a0a0a'' 1 None] [] []"
  using performDelete_closes_session [of deleteModel
          "mkStore [mkStream ''0a0a0a'' 1 None, mkStream ''0b0b0b'' 2 None,
                    mkStream ''0b0b0b'' 3 None] [] []" "''0b0b0b''" "[(0, 0)]" plainMarshal 9]
        performDelete_closes_session [of deleteModel
          "mkStore [mkStream ''0a0a0a'' 1 None] [] []" "''0c0c0c''" "[(0, 0)]" plainMarshal 9]
  by (simp add: deleteModel_def mkStore_def mkStream_def plainMarshal_def
        performDelete_def DeleteStream_def HasActive_def closeCurrentSession_def
        closeSessions_def SortStreams_def swapAt_def Save_def osWriteFile_def osRename_def
        emptyDisk_def Let_def)

subsection \<open>Where accumulated seconds change\<close>

lemma toggleFirst_length: "length (toggleFirst secs t id0 xs) = length xs"
  by (induction xs) auto

lemma toggleFirst_nth:
  "i < length xs \<Longrightarrow>
   Seconds (toggleFirst secs t id0 xs ! i) = Seconds (xs ! i)
   \<or> Active (xs ! i) \<and> \<not> Active (toggleFirst secs t id0 xs ! i)
      \<and> Seconds (toggleFirst secs t id0 xs ! i) = Seconds (flushStream secs t (xs ! i))"
proof (induction xs arbitrary: i)
  case Nil
  then show ?case by simp
next
  case (Cons st rest)
  show ?case
  proof (cases i)
    case 0
    then show ?thesis by simp
  next
    case (Suc k)
    with Cons.prems have "k < length rest" by simp
    from Cons.IH [OF this] Suc show ?thesis by simp
  qed
qed

lemma backgroundLoop_length: "length (backgroundLoop secs tf now i xs) = length xs"
  by (induction xs arbitrary: i) auto

lemma backgroundLoop_nth:
  "k < length xs \<Longrightarrow>
   backgroundLoop secs tf now i xs ! k =
     (if Active (xs ! k) then (flushStream secs (tf (i + k)) (xs ! k))\<lparr>StartedAt := Some now\<rparr>
      else xs ! k)"
proof (induction xs arbitrary: i k)
  case Nil
  then show ?case by simp
next
  case (Cons st rest)
  show ?case
  proof (cases k)
    case 0
    then show ?thesis by simp
  next
    case (Suc k')
    with Cons.prems have "k' < length rest" by simp
    from Cons.IH [OF this] Suc show ?thesis by simp
  qed
qed

lemma flushStream_fields [simp]:
  "Active (flushStream secs t st) = Active st"
  "ID (flushStream secs t st) = ID st"
  "StartedAt (flushStream secs t st) = StartedAt st"
  by (simp_all add: flushStream_def split: option.splits)

lemma deleteFirst_cases:
  "deleteFirst id0 xs = xs
   \<or> (\<exists>k < length xs. ID (xs ! k) = id0 \<and> deleteFirst id0 xs = take k xs @ drop (Suc k) xs)"
proof (induction xs)
  case Nil
  then show ?case by simp
next
  case (Cons st rest)
  show ?case
  proof (cases "ID st = id0")
    case True
    then have "0 < length (st # rest) \<and> ID ((st # rest) ! 0) = id0
      \<and> deleteFirst id0 (st # rest) = take 0 (st # rest) @ drop (Suc 0) (st # rest)"
      by simp
    then show ?thesis by blast
  next
    case False
    from Cons.IH show ?thesis
    proof
      assume "deleteFirst id0 rest = rest"
      with False show ?thesis by simp
    next
      assume "\<exists>k < length rest. ID (rest ! k) = id0
                \<and> deleteFirst id0 rest = take k rest @ drop (Suc k) rest"
      then obtain k where "k < length rest" "ID (rest ! k) = id0"
        "deleteFirst id0 rest = take k rest @ drop (Suc k) rest" by blast
      with False have "Suc k < length (st # rest) \<and> ID ((st # rest) ! Suc k) = id0
        \<and> deleteFirst id0 (st # rest) = take (Suc k) (st # rest) @ drop (Suc (Suc k)) (st # rest)"
        by simp
      then show ?thesis by blast
    qed
  qed
qed

text \<open>
  C4 (as the code has it). \<open>Seconds\<close> changes only inside \<open>flushStream\<close>. In
  \<open>ToggleStream\<close> and \<open>StopAll\<close> a stream's \<open>Seconds\<close> differs afterwards only if
  the stream was active and is now inactive, and then it is the flushed value. The one
  other place is \<open>SaveForBackground\<close>: every active stream is flushed and restarted at
  \<open>now\<close> while it stays active, inactive streams are untouched. No other operation of
  the engine changes the \<open>Seconds\<close> of a stream: \<open>ContinueAll\<close> and the repair pass of
  \<open>LoadStore\<close> keep every stream's \<open>Seconds\<close> at its index, \<open>AddStream\<close> only adds
  a stream with zero seconds, \<open>DeleteStream\<close> only removes one stream or none,
  \<open>SortStreams\<close> only rearranges the streams, and \<open>closeCurrentSession\<close> does
  not touch the streams.
\<close>

theorem Seconds_change_only_by_flush:
  "(let s' = ToggleStream secs tStream tSession id0 s in
      length (Streams s') = length (Streams s)
      \<and> (\<forall>i < length (Streams s).
           Seconds (Streams s' ! i) = Seconds (Streams s ! i)
           \<or> Active (Streams s ! i) \<and> \<not> Active (Streams s' ! i)
              \<and> Seconds (Streams s' ! i) = Seconds (flushStream secs tStream (Streams s ! i))))
   \<and> (let s' = StopAll secs tf tClose s in
      length (Streams s') = length (Streams s)
      \<and> (\<forall>i < length (Streams s).
           Seconds (Streams s' ! i) = Seconds (Streams s ! i)
           \<or> Active (Streams s ! i) \<and> \<not> Active (Streams s' ! i)
              \<and> Seconds (Streams s' ! i) = Seconds (flushStream secs (tf i) (Streams s ! i))))
   \<and> (let s' = fst (SaveForBackground marshal secs tf now s fs) in
      length (Streams s') = length (Streams s)
      \<and> (\<forall>i < length (Streams s).
           Streams s' ! i =
             (if Active (Streams s ! i)
              then (flushStream secs (tf i) (Streams s ! i))\<lparr>StartedAt := Some now\<rparr>
              else Streams s ! i)))
   \<and> map Seconds (Streams (ContinueAll now s)) = map Seconds (Streams s)
   \<and> (\<exists>k \<le> length (Streams s).
        map Seconds (Streams (AddStream nid now name at0 s))
          = take k (map Seconds (Streams s)) @ 0 # drop k (map Seconds (Streams s)))
   \<and> (Streams (DeleteStream id0 s) = Streams s
      \<or> (\<exists>k < length (Streams s).
            Streams (DeleteStream id0 s) = take k (Streams s) @ drop (Suc k) (Streams s)))
   \<and> Streams (closeCurrentSession now s) = Streams s
   \<and> (length (Streams (SortStreams swaps s)) = length (Streams s)
      \<and> mset (Streams (SortStreams swaps s)) = mset (Streams s))
   \<and> (\<forall>data s0 s'. osReadFile path fs = Inr data \<and> unmarshal data (newStore path) = Some s0
         \<and> LoadStore unmarshal tn now path fs = Inr s'
         \<longrightarrow> map Seconds (Streams s') = map Seconds (Streams s0))"
proof -
  have tg: "Streams (ToggleStream secs tStream tSession id0 s)
              = toggleFirst secs tStream id0 (Streams s)"
    by (simp add: ToggleStream_def Let_def closeCurrentSession_def)
  have 1: "length (Streams (ToggleStream secs tStream tSession id0 s)) = length (Streams s)
      \<and> (\<forall>i < length (Streams s).
           Seconds (Streams (ToggleStream secs tStream tSession id0 s) ! i) = Seconds (Streams s ! i)
           \<or> Active (Streams s ! i) \<and> \<not> Active (Streams (ToggleStream secs tStream tSession id0 s) ! i)
              \<and> Seconds (Streams (ToggleStream secs tStream tSession id0 s) ! i)
                  = Seconds (flushStream secs tStream (Streams s ! i)))"
    unfolding tg using toggleFirst_nth [of _ "Streams s" secs tStream id0]
    by (simp add: toggleFirst_length)
  have st: "Streams (StopAll secs tf tClose s) = fst (stopLoop secs tf 0 (Streams s) [])"
    by (simp add: StopAll_def Let_def split_beta closeCurrentSession_def)
  have 2: "length (Streams (StopAll secs tf tClose s)) = length (Streams s)
      \<and> (\<forall>i < length (Streams s).
           Seconds (Streams (StopAll secs tf tClose s) ! i) = Seconds (Streams s ! i)
           \<or> Active (Streams s ! i) \<and> \<not> Active (Streams (StopAll secs tf tClose s) ! i)
              \<and> Seconds (Streams (StopAll secs tf tClose s) ! i)
                  = Seconds (flushStream secs (tf i) (Streams s ! i)))"
    unfolding st by (simp add: stopLoop_length stopLoop_nth)
  have bg: "Streams (fst (SaveForBackground marshal secs tf now s fs))
              = backgroundLoop secs tf now 0 (Streams s)"
    by (simp add: SaveForBackground_def Let_def)
  have 3: "length (Streams (fst (SaveForBackground marshal secs tf now s fs))) = length (Streams s)
      \<and> (\<forall>i < length (Streams s).
           Streams (fst (SaveForBackground marshal secs tf now s fs)) ! i =
             (if Active (Streams s ! i)
              then (flushStream secs (tf i) (Streams s ! i))\<lparr>StartedAt := Some now\<rparr>
              else Streams s ! i))"
    unfolding bg by (simp add: backgroundLoop_length backgroundLoop_nth)
  have 4: "map Seconds (Streams (ContinueAll now s)) = map Seconds (Streams s)"
    by (simp add: ContinueAll_def Let_def continueLoop_map comp_def)
  let ?k = "if at0 < 0 then 0 else if int (length (Streams s)) \<le> at0 then length (Streams s)
            else nat at0"
  have "?k \<le> length (Streams s)" by auto
  moreover have "map Seconds (Streams (AddStream nid now name at0 s))
          = take ?k (map Seconds (Streams s)) @ 0 # drop ?k (map Seconds (Streams s))"
    by (simp add: AddStream_streams take_map drop_map)
  ultimately have 5: "\<exists>k \<le> length (Streams s).
        map Seconds (Streams (AddStream nid now name at0 s))
          = take k (map Seconds (Streams s)) @ 0 # drop k (map Seconds (Streams s))"
    by blast
  have 6: "Streams (DeleteStream id0 s) = Streams s
      \<or> (\<exists>k < length (Streams s).
            Streams (DeleteStream id0 s) = take k (Streams s) @ drop (Suc k) (Streams s))"
    using deleteFirst_cases [of id0 "Streams s"] by (auto simp: DeleteStream_def)
  have 7: "Streams (closeCurrentSession now s) = Streams s"
    by (simp add: closeCurrentSession_def)
  have 8: "length (Streams (SortStreams swaps s)) = length (Streams s)
      \<and> mset (Streams (SortStreams swaps s)) = mset (Streams s)"
    by (simp add: SortStreams_def applySwaps_length applySwaps_mset)
  have rp: "\<And>xs. map Seconds (map (repairStream now) xs) = map Seconds xs"
    by (simp add: repairStream_def comp_def)
  have 9: "\<forall>data s0 s'. osReadFile path fs = Inr data \<and> unmarshal data (newStore path) = Some s0
         \<and> LoadStore unmarshal tn now path fs = Inr s'
         \<longrightarrow> map Seconds (Streams s') = map Seconds (Streams s0)"
    using rp by (auto simp: LoadStore_def split: option.splits)
  from 1 2 3 4 5 6 7 8 9 show ?thesis
    unfolding Let_def by blast
qed

theorem Seconds_change_only_by_flush_witness:
  "map Seconds (Streams (ToggleStream wholeSeconds 5000000000 5000000001 ''0a0a0a''
       (mkStore [mkStream ''0a0a0a'' 7 (Some 0)] [\<lparr>Start = 0, End = None\<rparr>] []))) = [12]
   \<and> map Seconds (Streams (ToggleStream wholeSeconds 5000000000 5000000001 ''0a0a0a''
       (mkStore [mkStream ''0a0a0a'' 7 None] [] []))) = [7]
   \<and> map Seconds (Streams (ContinueAll 5000000000
       (mkStore [mkStream ''0a0a0a'' 7 None] [] [''0a0a0a'']))) = [7]
   \<and> map Seconds (Streams (DeleteStream ''0a0a0a''
       (mkStore [mkStream ''0a0a0a'' 7 None, mkStream ''0b0b0b'' 8 None] [] []))) = [8]
   \<and> map Seconds (Streams (SortStreams [(0, 1)]
       (mkStore [mkStream ''0a0a0a'' 7 None, mkStream ''0b0b0b'' 8 None] [] []))) = [8, 7]
   \<and> map_sum id (\<lambda>s'. map Seconds (Streams s'))
        (LoadStore plainUnmarshal (constClock 0) 9 ''urd.json''
           (diskWith ''urd.json'' (mkStore [mkStream ''0a0a0a'' 7 None] [] []))) = Inr [7]"
  using Seconds_change_only_by_flush [where secs = wholeSeconds and tStream = 5000000000
          and tSession = 5000000001 and ?id0.0 = "''0a0a0a''"
          and s = "mkStore [mkStream ''0a0a0a'' 7 (Some 0)] [\<lparr>Start = 0, End = None\<rparr>] []"
          and tf = "constClock 5000000000" and tClose = 5000000001
          and marshal = plainMarshal and now = 5000000000 and fs = "emptyDisk"
          and unmarshal = plainUnmarshal and nid = "''0c0c0c''" and name = "''C''"
          and ?at0.0 = 0 and swaps = "[(0, 1)]" and path = "''urd.json''"
          and tn = "constClock 0"]
        Seconds_change_only_by_flush [where secs = wholeSeconds and tStream = 5000000000
          and tSession = 5000000001 and ?id0.0 = "''0a0a0a''"
          and s = "mkStore [mkStream ''0a0a0a'' 7 None, mkStream ''0b0b0b'' 8 None] [] []"
          and tf = "constClock 5000000000" and tClose = 5000000001
          and marshal = plainMarshal and now = 9
          and fs = "diskWith ''urd.json'' (mkStore [mkStream ''0a0a0a'' 7 None] [] [])"
          and unmarshal = plainUnmarshal and nid = "''0c0c0c''" and name = "''C''"
          and ?at0.0 = 0 and swaps = "[(0, 1)]" and path = "''urd.json''"
          and tn = "constClock 0"]
  by (simp add: mkStore_def mkStream_def Let_def ToggleStream_def HasActive_def flushStream_def
        closeCurrentSession_def closeSessions_def ContinueAll_def DeleteStream_def
        SortStreams_def swapAt_def LoadStore_def osReadFile_def diskWith_def emptyDisk_def
        plainUnmarshal_def newStore_def validate_def TotalWallClock_def Truncate_def
        Second_def repairStream_def
        Sub_def minDuration_def maxDuration_def wholeSeconds_def signed_divide_int_def)

text \<open>
  C4 as stated allows no change of \<open>Seconds\<close> outside a deactivation.
  \<open>SaveForBackground\<close> five seconds after the start of an active stream with seven
  banked seconds banks twelve and the stream is still active.
\<close>

theorem SaveForBackground_counterexample:
  "map Seconds (Streams (mkStore [mkStream ''0a0a0a'' 7 (Some 0)] [\<lparr>Start = 0, End = None\<rparr>] []))
     = [7]
   \<and> map Seconds (Streams (fst (SaveForBackground plainMarshal wholeSeconds
        (constClock 5000000000) 5000000000
        (mkStore [mkStream ''0a0a0a'' 7 (Some 0)] [\<lparr>Start = 0, End = None\<rparr>] []) emptyDisk)))
     = [12]
   \<and> map Active (Streams (fst (SaveForBackground plainMarshal wholeSeconds
        (constClock 5000000000) 5000000000
        (mkStore [mkStream ''0a0a0a'' 7 (Some 0)] [\<lparr>Start = 0, End = None\<rparr>] []) emptyDisk)))
     = [True]"
  by (simp add: mkStore_def mkStream_def SaveForBackground_def Let_def flushStream_def
        constClock_def Sub_def minDuration_def maxDuration_def wholeSeconds_def
        signed_divide_int_def)

subsection \<open>Load-time validation\<close>

lemma streamTotalLoop_sum:
  "streamTotalLoop xs acc = acc + word_of_int (sumSeconds xs * 1000000000)"
  by (induction xs arbitrary: acc) (simp_all add: sumSeconds_def Second_def algebra_simps)

lemma sint_word_of_int_i64:
  "fitsDuration k \<Longrightarrow> sint (word_of_int k :: i64) = k"
  by (simp add: fitsDuration_def sint_sbintrunc' signed_take_bit_int_eq_self minDuration_def
        maxDuration_def)

lemma Sub_exact: "fitsDuration (t - u) \<Longrightarrow> Sub t u = word_of_int (t - u)"
  by (simp add: Sub_def fitsDuration_def)

lemma wallLoop_sum:
  "\<forall>d \<in> set (sessionSpans tn i ss). fitsDuration d \<Longrightarrow>
   wallLoop tn i ss acc = acc + word_of_int (sum_list (sessionSpans tn i ss))"
proof (induction ss arbitrary: i acc)
  case Nil
  then show ?case by simp
next
  case (Cons x xs)
  let ?e = "case End x of None \<Rightarrow> tn i | Some e \<Rightarrow> e"
  from Cons.prems have here: "fitsDuration (?e - Start x)"
    and rest: "\<forall>d \<in> set (sessionSpans tn (Suc i) xs). fitsDuration d"
    by simp_all
  have "wallLoop tn i (x # xs) acc = wallLoop tn (Suc i) xs (acc + Sub ?e (Start x))"
    by (simp add: Let_def)
  also have "\<dots> = acc + Sub ?e (Start x) + word_of_int (sum_list (sessionSpans tn (Suc i) xs))"
    by (rule Cons.IH [OF rest])
  also have "\<dots> = acc + word_of_int (sum_list (sessionSpans tn i (x # xs)))"
    by (simp add: Sub_exact [OF here])
  finally show ?case .
qed

lemma smod_bounds:
  fixes k :: int
  shows "(0 \<le> k \<longrightarrow> 0 \<le> k smod 1000000000 \<and> k smod 1000000000 \<le> k)
       \<and> (k < 0 \<longrightarrow> k \<le> k smod 1000000000 \<and> k smod 1000000000 \<le> 0)"
proof -
  have a: "0 \<le> \<bar>k\<bar> mod 1000000000" by simp
  have b: "\<bar>k\<bar> mod 1000000000 \<le> \<bar>k\<bar>" by (rule zmod_le_nonneg_dividend) simp
  show ?thesis using a b by (auto simp: signed_modulo_int_def sgn_if)
qed

lemma sint_Truncate_Second:
  "sint (Truncate d Second) = (sint d sdiv 1000000000) * 1000000000"
proof -
  let ?k = "sint d"
  have rng: "minDuration \<le> ?k" "?k \<le> maxDuration"
    using sint_ge [of d] sint_lt [of d] by (simp_all add: minDuration_def maxDuration_def)
  have "minDuration \<le> ?k - ?k smod 1000000000" "?k - ?k smod 1000000000 \<le> maxDuration"
    using smod_bounds [of ?k] rng unfolding minDuration_def maxDuration_def by linarith+
  then have "fitsDuration (?k - ?k smod 1000000000)"
    by (simp add: fitsDuration_def)
  then have "sint (word_of_int (?k - ?k smod 1000000000) :: i64) = ?k - ?k smod 1000000000"
    by (rule sint_word_of_int_i64)
  moreover have "Truncate d Second = word_of_int (?k - ?k smod 1000000000)"
    by (simp add: Truncate_def Second_def)
  ultimately show ?thesis by (simp add: minus_smod_eq_sdiv_mult)
qed

lemma TotalWallClock_exact:
  assumes "\<forall>d \<in> set (sessionSpans tn 0 (Sessions s)). fitsDuration d"
    and "fitsDuration (wallClockNanos tn s)"
  shows "sint (TotalWallClock tn s) = wallClockSeconds tn s * 1000000000"
proof -
  have "wallLoop tn 0 (Sessions s) 0 = word_of_int (wallClockNanos tn s)"
    using wallLoop_sum [OF assms(1), of 0] by (simp add: wallClockNanos_def)
  then have "sint (wallLoop tn 0 (Sessions s) 0) = wallClockNanos tn s"
    using sint_word_of_int_i64 [OF assms(2)] by simp
  then show ?thesis
    by (simp add: TotalWallClock_def sint_Truncate_Second wallClockSeconds_def)
qed

lemma validate_exact:
  assumes "fitsDuration (sumSeconds (Streams s) * 1000000000)"
    and "\<forall>d \<in> set (sessionSpans tn 0 (Sessions s)). fitsDuration d"
    and "fitsDuration (wallClockNanos tn s)"
  shows "validate tn s =
      (if 0 < wallClockSeconds tn s \<and> sumSeconds (Streams s) < wallClockSeconds tn s
       then Some (InconsistentData (word_of_int (sumSeconds (Streams s) * 1000000000))
                    (word_of_int (wallClockSeconds tn s * 1000000000)))
       else None)"
proof -
  have st: "streamTotalLoop (Streams s) 0 = word_of_int (sumSeconds (Streams s) * 1000000000)"
    by (simp add: streamTotalLoop_sum)
  have a: "sint (streamTotalLoop (Streams s) 0) = sumSeconds (Streams s) * 1000000000"
    using sint_word_of_int_i64 [OF assms(1)] by (simp add: streamTotalLoop_sum)
  have b: "sint (TotalWallClock tn s) = wallClockSeconds tn s * 1000000000"
    by (rule TotalWallClock_exact [OF assms(2,3)])
  have "(word_of_int (sint (TotalWallClock tn s)) :: i64) = TotalWallClock tn s"
    by simp
  then have c: "TotalWallClock tn s = word_of_int (wallClockSeconds tn s * 1000000000)"
    by (simp only: b)
  let ?bad = "0 < wallClockSeconds tn s \<and> sumSeconds (Streams s) < wallClockSeconds tn s"
  have cond: "0 < sint (TotalWallClock tn s)
                \<and> sint (streamTotalLoop (Streams s) 0) < sint (TotalWallClock tn s) \<longleftrightarrow> ?bad"
    unfolding a b by simp
  show ?thesis
  proof (cases ?bad)
    case True
    with cond have "validate tn s =
        Some (InconsistentData (streamTotalLoop (Streams s) 0) (TotalWallClock tn s))"
      by (simp add: validate_def Let_def)
    also have "\<dots> = Some (InconsistentData (word_of_int (sumSeconds (Streams s) * 1000000000))
                    (word_of_int (wallClockSeconds tn s * 1000000000)))"
      using st c by (simp only:)
    finally show ?thesis using True by (simp only: if_P)
  next
    case False
    with cond have "validate tn s = None"
      by (simp add: validate_def Let_def)
    with False show ?thesis by (simp only: if_not_P if_False)
  qed
qed

text \<open>
  C3 (as the code has it). Take a persisted store that can be read and decoded, in which
  the span of every session, the sum of the spans and the sum of the accumulated seconds
  (in nanoseconds) are values of \<open>time.Duration\<close>. Loading it fails with the
  data-inconsistency error if and only if the wall-clock total is positive and the sum
  of the accumulated seconds is strictly less than it (both in whole seconds); otherwise
  loading succeeds and returns the decoded store, in which every active stream without
  \<open>StartedAt\<close> has got \<open>StartedAt = now\<close>.
\<close>

theorem LoadStore_validation:
  assumes rd: "osReadFile path fs = Inr data"
    and um: "unmarshal data (newStore path) = Some s"
    and st: "fitsDuration (sumSeconds (Streams s) * 1000000000)"
    and sp: "\<forall>d \<in> set (sessionSpans tn 0 (Sessions s)). fitsDuration d"
    and wt: "fitsDuration (wallClockNanos tn s)"
  shows "LoadStore unmarshal tn now path fs =
           (if 0 < wallClockSeconds tn s \<and> sumSeconds (Streams s) < wallClockSeconds tn s
            then Inl (InconsistentData (word_of_int (sumSeconds (Streams s) * 1000000000))
                        (word_of_int (wallClockSeconds tn s * 1000000000)))
            else Inr (s\<lparr>Streams :=
                         map (\<lambda>x. if Active x \<and> StartedAt x = None
                                  then x\<lparr>StartedAt := Some now\<rparr> else x) (Streams s)\<rparr>))"
proof -
  have "map (repairStream now) (Streams s) =
          map (\<lambda>x. if Active x \<and> StartedAt x = None then x\<lparr>StartedAt := Some now\<rparr> else x)
            (Streams s)"
    by (simp add: repairStream_def)
  then show ?thesis
    by (simp add: LoadStore_def rd um validate_exact [OF st sp wt])
qed

theorem LoadStore_validation_witness:
  "LoadStore plainUnmarshal (constClock 0) 0 ''urd.json'' (diskWith ''urd.json'' shortStore)
     = Inl (InconsistentData 60000000000 7200000000000)
   \<and> LoadStore plainUnmarshal (constClock 0) 0 ''urd.json'' (diskWith ''urd.json'' hourStore)
     = Inr hourStore"
proof -
  have rd: "osReadFile ''urd.json'' (diskWith ''urd.json'' shortStore) = Inr shortStore"
    "osReadFile ''urd.json'' (diskWith ''urd.json'' hourStore) = Inr hourStore"
    by (simp_all add: osReadFile_def diskWith_def emptyDisk_def)
  have um: "plainUnmarshal shortStore (newStore ''urd.json'') = Some shortStore"
    "plainUnmarshal hourStore (newStore ''urd.json'') = Some hourStore"
    by (simp_all add: plainUnmarshal_def newStore_def shortStore_def hourStore_def mkStore_def)
  have sm: "sumSeconds (Streams shortStore) = 60" "sumSeconds (Streams hourStore) = 7200"
    by (simp_all add: sumSeconds_def shortStore_def hourStore_def mkStore_def mkStream_def)
  have sp: "sessionSpans (constClock 0) 0 (Sessions shortStore) = [7200000000000]"
    "sessionSpans (constClock 0) 0 (Sessions hourStore) = [3600000000000]"
    by (simp_all add: shortStore_def hourStore_def mkStore_def)
  have wn: "wallClockNanos (constClock 0) shortStore = 7200000000000"
    "wallClockNanos (constClock 0) hourStore = 3600000000000"
    by (simp_all add: wallClockNanos_def sp)
  have ws: "wallClockSeconds (constClock 0) shortStore = 7200"
    "wallClockSeconds (constClock 0) hourStore = 3600"
    by (simp_all add: wallClockSeconds_def wn signed_divide_int_def)
  have rp: "hourStore\<lparr>Streams := map (\<lambda>x. if Active x \<and> StartedAt x = None
              then x\<lparr>StartedAt := Some 0\<rparr> else x) (Streams hourStore)\<rparr> = hourStore"
    by (simp add: hourStore_def mkStore_def mkStream_def)
  have 1: "LoadStore plainUnmarshal (constClock 0) 0 ''urd.json''
             (diskWith ''urd.json'' shortStore)
           = Inl (InconsistentData 60000000000 7200000000000)"
    using LoadStore_validation [where unmarshal = plainUnmarshal and tn = "constClock 0"
            and now = 0, OF rd(1) um(1)]
    by (simp add: sm sp wn ws fitsDuration_def minDuration_def maxDuration_def)
  have 2: "LoadStore plainUnmarshal (constClock 0) 0 ''urd.json''
             (diskWith ''urd.json'' hourStore) = Inr hourStore"
    using LoadStore_validation [where unmarshal = plainUnmarshal and tn = "constClock 0"
            and now = 0, OF rd(2) um(2)]
    by (simp add: sm sp wn ws rp fitsDuration_def minDuration_def maxDuration_def)
  from 1 2 show ?thesis by simp
qed

text \<open>
  C3 as stated covers every persisted store. With one stream of 9223372037 accumulated
  seconds and one session of one second the sum is far above the wall clock, but the
  stream total wraps around as a Duration and loading fails. With one stream of five
  seconds and two sessions of 6000000000 seconds each the wall-clock total is positive
  and far above the sum, but the total of the spans wraps around and loading succeeds.
\<close>

theorem LoadStore_overflow_counterexample:
  "sumSeconds (Streams longStore) = 9223372037
   \<and> wallClockSeconds (constClock 0) longStore = 1
   \<and> LoadStore plainUnmarshal (constClock 0) 0 ''urd.json'' (diskWith ''urd.json'' longStore)
       = Inl (InconsistentData 9223372037000000000 1000000000)
   \<and> sumSeconds (Streams twoSpanStore) = 5
   \<and> wallClockSeconds (constClock 0) twoSpanStore = 12000000000
   \<and> LoadStore plainUnmarshal (constClock 0) 0 ''urd.json''
        (diskWith ''urd.json'' twoSpanStore) = Inr twoSpanStore"
proof -
  have s1: "sumSeconds (Streams longStore) = 9223372037"
    "sumSeconds (Streams twoSpanStore) = 5"
    by (simp_all add: sumSeconds_def longStore_def twoSpanStore_def mkStore_def mkStream_def)
  have w1: "wallClockSeconds (constClock 0) longStore = 1"
    "wallClockSeconds (constClock 0) twoSpanStore = 12000000000"
    by (simp_all add: wallClockSeconds_def wallClockNanos_def longStore_def twoSpanStore_def
          mkStore_def signed_divide_int_def)
  have t1: "TotalWallClock (constClock 0) longStore = 1000000000"
    by (simp add: TotalWallClock_def longStore_def mkStore_def Sub_def minDuration_def
          maxDuration_def Truncate_def Second_def signed_modulo_int_def)
  have t2: "TotalWallClock (constClock 0) twoSpanStore = 12000000000709551616"
    by (simp add: TotalWallClock_def twoSpanStore_def mkStore_def Sub_def minDuration_def
          maxDuration_def Truncate_def Second_def signed_modulo_int_def)
  have st1: "streamTotalLoop (Streams longStore) 0 = 9223372037000000000"
    by (simp add: longStore_def mkStore_def mkStream_def Second_def)
  have st2: "streamTotalLoop (Streams twoSpanStore) 0 = 5000000000"
    by (simp add: twoSpanStore_def mkStore_def mkStream_def Second_def)
  have v1: "validate (constClock 0) longStore
              = Some (InconsistentData 9223372037000000000 1000000000)"
    by (simp add: validate_def Let_def t1 st1)
  have v2: "validate (constClock 0) twoSpanStore = None"
    by (simp add: validate_def Let_def t2 st2)
  have u: "plainUnmarshal longStore (newStore ''urd.json'') = Some longStore"
    "plainUnmarshal twoSpanStore (newStore ''urd.json'') = Some twoSpanStore"
    by (simp_all add: plainUnmarshal_def newStore_def longStore_def twoSpanStore_def
          mkStore_def)
  have r: "map (repairStream 0) (Streams twoSpanStore) = Streams twoSpanStore"
    by (simp add: twoSpanStore_def mkStore_def mkStream_def repairStream_def)
  have rd: "\<And>x :: Store. osReadFile ''urd.json'' (diskWith ''urd.json'' x) = Inr x"
    by (simp add: osReadFile_def diskWith_def emptyDisk_def)
  have l1: "LoadStore plainUnmarshal (constClock 0) 0 ''urd.json''
              (diskWith ''urd.json'' longStore)
            = Inl (InconsistentData 9223372037000000000 1000000000)"
    by (simp add: LoadStore_def rd u v1)
  have l2: "LoadStore plainUnmarshal (constClock 0) 0 ''urd.json''
              (diskWith ''urd.json'' twoSpanStore) = Inr twoSpanStore"
    by (simp add: LoadStore_def rd u v2 r)
  from s1 w1 l1 l2 show ?thesis by simp
qed

subsection \<open>Save, then load\<close>




end
